theory Spec2Isabelle
  imports Main "HOL-Library.FSet"
begin

section \<open>The heaviest-branch tip selector (package mselection)\<close>

text \<open>
  The selector keeps \<^verbatim>\<open>trackedMessages map[string]*trackedMessage\<close> and a
  \<^verbatim>\<open>container/list\<close> of tips. Both hold pointers to the same
  \<^verbatim>\<open>trackedMessage\<close> objects, and the working list of \<^verbatim>\<open>SelectTips\<close> holds
  those pointers too, so the objects live in an explicit store: \<open>objs\<close> maps an
  address to the object stored there and \<open>nextAddr\<close> is the next free address.

  A message ID is represented by its \<^verbatim>\<open>MapKey()\<close>. A \<^verbatim>\<open>bitset.BitSet\<close> (an
  external library) is represented by the finite set of its set bit positions:
  \<^verbatim>\<open>New(n).Set(i)\<close> is \<open>{|i|}\<close>, \<^verbatim>\<open>InPlaceUnion\<close> is union, \<^verbatim>\<open>InPlaceDifference\<close>
  is set difference and \<^verbatim>\<open>Count\<close> is the cardinality.
\<close>

type_synonym MessageID = string
type_synonym addr = nat
type_synonym BitSet = "nat fset"

datatype error = ErrNoTipsAvailable

text \<open>
  \<^verbatim>\<open>tip *list.Element\<close> is nil or the element of this message in the tip list.
  A message is pushed to the list once, when it is created, so its element is
  identified with the address of the message: the field is the flag "not nil" and the
  list holds addresses.
\<close>

record trackedMessage =
  messageID :: MessageID
  tip :: bool
  refs :: BitSet

record HeaviestSelector =
  minHeaviestBranchUnreferencedMessagesThreshold :: int
  maxHeaviestBranchTipsPerCheckpoint :: int
  randomTipsPerCheckpoint :: int
  heaviestBranchSelectionDeadline :: int
  trackedMessages :: "MessageID \<rightharpoonup> addr"
  tips :: "addr list"
  objs :: "addr \<Rightarrow> trackedMessage"
  nextAddr :: addr

text \<open>The part of \<^verbatim>\<open>tangle.MessageMetadata\<close> that the selector reads.\<close>

record MessageMetadata =
  GetMessageID :: MessageID
  GetParent1MessageID :: MessageID
  GetParent2MessageID :: MessageID

text \<open>
  \<^verbatim>\<open>trackedMessagesList.msgs\<close> is a Go map that is iterated. It is an association
  list with unique keys, iterated from the front. Go leaves the iteration order open; the
  order only decides which index of a candidate slice names which tip, and that index
  is drawn at random, so every choice the program can make is a choice of the model.
\<close>

type_synonym trackedMessagesList = "(MessageID \<times> addr) list"

text \<open>
  What the selector takes from outside: whether \<^verbatim>\<open>ctx.Done()\<close> is closed when
  iteration \<open>i\<close> of the heaviest loop starts, and the raw random numbers behind the
  calls of \<^verbatim>\<open>utils.RandomInsecure\<close> in the heaviest loop and in the padding loop.
\<close>

record env =
  ctxDone :: "nat \<Rightarrow> bool"
  randHeaviest :: "nat \<Rightarrow> nat"
  randPadding :: "nat \<Rightarrow> nat"

text \<open>
  Modelled from the spec: \<^verbatim>\<open>utils.RandomInsecure(min, max)\<close> is not among the sources.
  The spec asks for a uniform pick of one entry; the model maps the raw number \<open>r\<close> into
  the inclusive range \<open>min .. max\<close>.
\<close>

definition RandomInsecure :: "nat \<Rightarrow> int \<Rightarrow> int \<Rightarrow> int" where
  "RandomInsecure r lo hi = int r mod (hi + 1 - lo) + lo"

subsection \<open>The working list\<close>

definition Len :: "trackedMessagesList \<Rightarrow> int" where
  "Len il = int (length il)"

text \<open>Assignment \<^verbatim>\<open>m[k] = v\<close> of a Go map.\<close>

fun mapPut :: "MessageID \<Rightarrow> addr \<Rightarrow> trackedMessagesList \<Rightarrow> trackedMessagesList" where
  "mapPut k v [] = [(k, v)]"
| "mapPut k v ((k', v') # rest) =
     (if k = k' then (k, v) # rest else (k', v') # mapPut k v rest)"

text \<open>\<^verbatim>\<open>delete(m, k)\<close> of a Go map.\<close>

definition mapDelete :: "MessageID \<Rightarrow> trackedMessagesList \<Rightarrow> trackedMessagesList" where
  "mapDelete k il = filter (\<lambda>kv. fst kv \<noteq> k) il"

text \<open>The loop of \<^verbatim>\<open>randomTip\<close>: count the index down, return the tip where it drops below zero.\<close>

fun randomTipLoop :: "int \<Rightarrow> trackedMessagesList \<Rightarrow> error + addr" where
  "randomTipLoop randomMsgIndex [] = Inl ErrNoTipsAvailable"
| "randomTipLoop randomMsgIndex ((k, t) # rest) =
     (if randomMsgIndex - 1 < 0 then Inr t else randomTipLoop (randomMsgIndex - 1) rest)"

definition randomTip :: "trackedMessagesList \<Rightarrow> nat \<Rightarrow> error + addr" where
  "randomTip il r =
     (if length il = 0 then Inl ErrNoTipsAvailable
      else randomTipLoop (RandomInsecure r 0 (int (length il) - 1)) il)"

text \<open>\<^verbatim>\<open>trackedMessagesList.removeTip\<close>; the selector has a \<^verbatim>\<open>removeTip\<close> of its own.\<close>

definition removeTipL :: "HeaviestSelector \<Rightarrow> trackedMessagesList \<Rightarrow> addr \<Rightarrow> trackedMessagesList" where
  "removeTipL s il t = mapDelete (messageID (objs s t)) il"

text \<open>
  The loop of \<^verbatim>\<open>referenceTip\<close>: \<^verbatim>\<open>otherTip.refs.InPlaceDifference(tip.refs)\<close> writes
  to the object \<open>otherTip\<close> points to, in the store.
\<close>

fun referenceTipLoop :: "addr \<Rightarrow> trackedMessagesList \<Rightarrow> HeaviestSelector \<Rightarrow> HeaviestSelector" where
  "referenceTipLoop t [] s = s"
| "referenceTipLoop t ((k, otherTip) # rest) s =
     referenceTipLoop t rest
       (s\<lparr>objs := (objs s)(otherTip :=
            (objs s otherTip)\<lparr>refs := refs (objs s otherTip) |-| refs (objs s t)\<rparr>)\<rparr>)"

definition referenceTip ::
  "HeaviestSelector \<Rightarrow> trackedMessagesList \<Rightarrow> addr \<Rightarrow> HeaviestSelector \<times> trackedMessagesList" where
  "referenceTip s il t =
     (let il' = removeTipL s il t in (referenceTipLoop t il' s, il'))"

subsection \<open>The selector\<close>

definition reset :: "HeaviestSelector \<Rightarrow> HeaviestSelector" where
  "reset s = s\<lparr>trackedMessages := Map.empty, tips := []\<rparr>"

definition New :: "int \<Rightarrow> int \<Rightarrow> int \<Rightarrow> int \<Rightarrow> HeaviestSelector" where
  "New minThreshold maxTips randomTips deadline =
     reset \<lparr>minHeaviestBranchUnreferencedMessagesThreshold = minThreshold,
            maxHeaviestBranchTipsPerCheckpoint = maxTips,
            randomTipsPerCheckpoint = randomTips,
            heaviestBranchSelectionDeadline = deadline,
            trackedMessages = Map.empty,
            tips = [],
            objs = (\<lambda>a. \<lparr>messageID = [], tip = False, refs = {||}\<rparr>),
            nextAddr = 0\<rparr>"

definition GetTrackedMessagesCount :: "HeaviestSelector \<Rightarrow> int" where
  "GetTrackedMessagesCount s = int (card (dom (trackedMessages s)))"

text \<open>The scan of \<^verbatim>\<open>selectTip\<close> over the working list; \<open>best\<close> is the pair of \<^verbatim>\<open>best.tips\<close> and \<^verbatim>\<open>best.count\<close>.\<close>

fun selectTipScan ::
  "HeaviestSelector \<Rightarrow> trackedMessagesList \<Rightarrow> addr list \<times> nat \<Rightarrow> addr list \<times> nat" where
  "selectTipScan s [] best = best"
| "selectTipScan s ((k, t) # rest) (bestTips, bestCount) =
     (let c = fcard (refs (objs s t)) in
      if c > bestCount then selectTipScan s rest ([t], c)
      else if c = bestCount then selectTipScan s rest (bestTips @ [t], bestCount)
      else selectTipScan s rest (bestTips, bestCount))"

definition selectTip ::
  "HeaviestSelector \<Rightarrow> trackedMessagesList \<Rightarrow> nat \<Rightarrow> error + (addr \<times> nat)" where
  "selectTip s tipsList r =
     (if Len tipsList = 0 then Inl ErrNoTipsAvailable
      else let best = selectTipScan s tipsList ([], 0) in
        if length (fst best) = 0 then Inl ErrNoTipsAvailable
        else Inr (fst best ! nat (RandomInsecure r 0 (int (length (fst best)) - 1)), snd best))"

definition removeTip :: "HeaviestSelector \<Rightarrow> addr option \<Rightarrow> HeaviestSelector" where
  "removeTip s it =
     (case it of
        None \<Rightarrow> s
      | Some a \<Rightarrow>
          if \<not> tip (objs s a) then s
          else s\<lparr>tips := remove1 a (tips s),
                 objs := (objs s)(a := (objs s a)\<lparr>tip := False\<rparr>)\<rparr>)"

text \<open>
  \<^verbatim>\<open>OnNewSolidMessage\<close> has the named result \<^verbatim>\<open>trackedMessagesCount\<close>; the bare
  \<^verbatim>\<open>return\<close> of the duplicate filter returns its zero value.
\<close>

definition OnNewSolidMessage :: "HeaviestSelector \<Rightarrow> MessageMetadata \<Rightarrow> int \<times> HeaviestSelector" where
  "OnNewSolidMessage s msgMeta =
     (if trackedMessages s (GetMessageID msgMeta) \<noteq> None then (0, s)
      else
        let parent1Item = trackedMessages s (GetParent1MessageID msgMeta);
            parent2Item = trackedMessages s (GetParent2MessageID msgMeta);
            idx = card (dom (trackedMessages s));
            r0 = {|idx|};
            r1 = (case parent1Item of None \<Rightarrow> r0 | Some p \<Rightarrow> r0 |\<union>| refs (objs s p));
            r2 = (case parent2Item of None \<Rightarrow> r1 | Some p \<Rightarrow> r1 |\<union>| refs (objs s p));
            it = nextAddr s;
            s1 = s\<lparr>objs := (objs s)(it := \<lparr>messageID = GetMessageID msgMeta, tip = False, refs = r2\<rparr>),
                   nextAddr := Suc it,
                   trackedMessages := (trackedMessages s)(GetMessageID msgMeta \<mapsto> it)\<rparr>;
            s2 = removeTip s1 parent1Item;
            s3 = removeTip s2 parent2Item;
            s4 = s3\<lparr>tips := tips s3 @ [it],
                    objs := (objs s3)(it := (objs s3 it)\<lparr>tip := True\<rparr>)\<rparr>
        in (GetTrackedMessagesCount s4, s4))"

text \<open>\<^verbatim>\<open>tipsToList\<close>: a new map from the tip list, front to back; the values are the same pointers.\<close>

fun tipsToListLoop :: "HeaviestSelector \<Rightarrow> addr list \<Rightarrow> trackedMessagesList \<Rightarrow> trackedMessagesList" where
  "tipsToListLoop s [] result = result"
| "tipsToListLoop s (e # es) result = tipsToListLoop s es (mapPut (messageID (objs s e)) e result)"

definition tipsToList :: "HeaviestSelector \<Rightarrow> trackedMessagesList" where
  "tipsToList s = tipsToListLoop s (tips s) []"

subsection \<open>SelectTips\<close>

text \<open>
  The state of the loops of \<^verbatim>\<open>SelectTips\<close>: the selector (with the store), the working
  list, the collected \<^verbatim>\<open>tips\<close> and, in the heaviest loop, \<^verbatim>\<open>deadlineExceeded\<close>.
  \<^verbatim>\<open>uint(n)\<close> of a negative 64-bit \<^verbatim>\<open>int\<close> wraps around.
\<close>

definition uintOf :: "int \<Rightarrow> nat" where
  "uintOf n = nat (n mod 2 ^ 64)"

type_synonym heaviestState = "HeaviestSelector \<times> trackedMessagesList \<times> MessageID list \<times> bool"

text \<open>One pass through the body of the heaviest loop; \<open>None\<close> is \<^verbatim>\<open>break\<close>.\<close>

definition heaviestIter :: "env \<Rightarrow> int \<Rightarrow> int \<Rightarrow> heaviestState \<Rightarrow> heaviestState option" where
  "heaviestIter e minRequiredTips i st =
     (case st of (s, tipsList, tps, deadlineExceeded) \<Rightarrow>
        let deadlineExceeded' = (if ctxDone e (nat i) then True else deadlineExceeded) in
        (case selectTip s tipsList (randHeaviest e (nat i)) of
           Inl err \<Rightarrow> None
         | Inr (t, count) \<Rightarrow>
             if int (length tps) > minRequiredTips \<and>
                (count < uintOf (minHeaviestBranchUnreferencedMessagesThreshold s) \<or> deadlineExceeded')
             then None
             else
               (case referenceTip s tipsList t of
                  (s', tipsList') \<Rightarrow>
                    Some (s', tipsList', tps @ [messageID (objs s' t)], deadlineExceeded'))))"

lemma referenceTipLoop_config:
  "maxHeaviestBranchTipsPerCheckpoint (referenceTipLoop t il s) = maxHeaviestBranchTipsPerCheckpoint s
   \<and> randomTipsPerCheckpoint (referenceTipLoop t il s) = randomTipsPerCheckpoint s
   \<and> minHeaviestBranchUnreferencedMessagesThreshold (referenceTipLoop t il s)
       = minHeaviestBranchUnreferencedMessagesThreshold s"
  by (induction t il s rule: referenceTipLoop.induct) simp_all

lemma heaviestIter_max:
  "heaviestIter e m i st = Some st' \<Longrightarrow>
   maxHeaviestBranchTipsPerCheckpoint (fst st') = maxHeaviestBranchTipsPerCheckpoint (fst st)"
  by (auto simp: heaviestIter_def referenceTip_def referenceTipLoop_config Let_def
      split: prod.splits sum.splits if_splits)

function heaviestLoop :: "env \<Rightarrow> int \<Rightarrow> int \<Rightarrow> heaviestState \<Rightarrow> heaviestState" where
  "heaviestLoop e minRequiredTips i st =
     (if i < maxHeaviestBranchTipsPerCheckpoint (fst st) then
        (case heaviestIter e minRequiredTips i st of
           None \<Rightarrow> st
         | Some st' \<Rightarrow> heaviestLoop e minRequiredTips (i + 1) st')
      else st)"
  by pat_completeness auto
termination
  by (relation "measure (\<lambda>(e, m, i, st). nat (maxHeaviestBranchTipsPerCheckpoint (fst st) - i))")
     (auto dest: heaviestIter_max)

declare heaviestLoop.simps [simp del]

type_synonym paddingState = "HeaviestSelector \<times> trackedMessagesList \<times> MessageID list"

definition randomIter :: "env \<Rightarrow> int \<Rightarrow> paddingState \<Rightarrow> paddingState option" where
  "randomIter e i st =
     (case st of (s, tipsList, tps) \<Rightarrow>
        (case randomTip tipsList (randPadding e (nat i)) of
           Inl err \<Rightarrow> None
         | Inr item \<Rightarrow>
             (case referenceTip s tipsList item of
                (s', tipsList') \<Rightarrow> Some (s', tipsList', tps @ [messageID (objs s' item)]))))"

lemma randomIter_random:
  "randomIter e i st = Some st' \<Longrightarrow>
   randomTipsPerCheckpoint (fst st') = randomTipsPerCheckpoint (fst st)"
  by (auto simp: randomIter_def referenceTip_def referenceTipLoop_config Let_def
      split: prod.splits sum.splits if_splits)

function randomLoop :: "env \<Rightarrow> int \<Rightarrow> paddingState \<Rightarrow> paddingState" where
  "randomLoop e i st =
     (if i < randomTipsPerCheckpoint (fst st) then
        (case randomIter e i st of
           None \<Rightarrow> st
         | Some st' \<Rightarrow> randomLoop e (i + 1) st')
      else st)"
  by pat_completeness auto
termination
  by (relation "measure (\<lambda>(e, i, st). nat (randomTipsPerCheckpoint (fst st) - i))")
     (auto dest: randomIter_random)

declare randomLoop.simps [simp del]

text \<open>
  \<^verbatim>\<open>SelectTips\<close> returns the error or the tips, and the selector it leaves behind. The
  second failure returns the selector as the heaviest loop left it.
\<close>

definition SelectTips ::
  "env \<Rightarrow> HeaviestSelector \<Rightarrow> int \<Rightarrow> (error + MessageID list) \<times> HeaviestSelector" where
  "SelectTips e s minRequiredTips =
     (let tipsList = tipsToList s in
      if Len tipsList = 0 then (Inl ErrNoTipsAvailable, s)
      else
        case heaviestLoop e minRequiredTips 0 (s, tipsList, [], False) of
          (s1, tipsList1, tps1, deadlineExceeded) \<Rightarrow>
            if length tps1 = 0 then (Inl ErrNoTipsAvailable, s1)
            else
              (case randomLoop e 0 (s1, tipsList1, tps1) of
                 (s2, tipsList2, tps2) \<Rightarrow> (Inr tps2, reset s2)))"

subsection \<open>Sequences of ingests and example states\<close>

fun ingestAll :: "HeaviestSelector \<Rightarrow> MessageMetadata list \<Rightarrow> HeaviestSelector" where
  "ingestAll s [] = s"
| "ingestAll s (m # ms) = ingestAll (snd (OnNewSolidMessage s m)) ms"

definition msg :: "MessageID \<Rightarrow> MessageID \<Rightarrow> MessageID \<Rightarrow> MessageMetadata" where
  "msg m p q = \<lparr>GetMessageID = m, GetParent1MessageID = p, GetParent2MessageID = q\<rparr>"

text \<open>An environment in which the deadline never passes and every random number is 0.\<close>

definition calmEnv :: env where
  "calmEnv = \<lparr>ctxDone = (\<lambda>i. False), randHeaviest = (\<lambda>i. 0), randPadding = (\<lambda>i. 0)\<rparr>"

text \<open>An environment in which the deadline has passed from the start.\<close>

definition lateEnv :: env where
  "lateEnv = \<lparr>ctxDone = (\<lambda>i. True), randHeaviest = (\<lambda>i. 0), randPadding = (\<lambda>i. 0)\<rparr>"

text \<open>A selector that tracks the single message \<open>A\<close>.\<close>

definition oneTracked :: HeaviestSelector where
  "oneTracked = ingestAll (New 0 1 0 0) [msg ''A'' [] []]"

text \<open>
  Two tips \<open>T1\<close> and \<open>T2\<close> over a shared root: \<open>A\<close>, then \<open>B\<close> and \<open>C\<close> on \<open>A\<close>,
  then \<open>T1\<close> on \<open>B\<close> and \<open>T2\<close> on \<open>C\<close>. The empty ID is a parent that is not tracked.
\<close>

definition overlapMsgs :: "MessageMetadata list" where
  "overlapMsgs = [msg ''A'' [] [], msg ''B'' ''A'' [], msg ''C'' ''A'' [],
                  msg ''T1'' ''B'' [], msg ''T2'' ''C'' []]"

definition overlapExample :: HeaviestSelector where
  "overlapExample = ingestAll (New 3 2 1 100) overlapMsgs"

lemmas eval_defs =
  msg_def calmEnv_def lateEnv_def New_def reset_def OnNewSolidMessage_def removeTip_def Let_def
  GetTrackedMessagesCount_def tipsToList_def SelectTips_def Len_def heaviestLoop.simps
  heaviestIter_def selectTip_def referenceTip_def removeTipL_def mapDelete_def
  randomLoop.simps randomIter_def randomTip_def RandomInsecure_def uintOf_def
  fcard_finsert_if oneTracked_def overlapExample_def overlapMsgs_def

lemma overlapExample_tips: "tips overlapExample = [3, 4]"
  by (simp add: eval_defs)

lemma overlapExample_select: "fst (SelectTips calmEnv overlapExample 0) = Inr [''T1'', ''T2'']"
  by (simp add: eval_defs)

section \<open>Duplicate ingest\<close>

lemma OnNewSolidMessage_duplicate:
  "trackedMessages s (GetMessageID m) \<noteq> None \<Longrightarrow> OnNewSolidMessage s m = (0, s)"
  by (simp add: OnNewSolidMessage_def)

text \<open>
  Claim C1: ingesting a message ID that is already tracked leaves the selector as it is
  and returns the current size of the tracked map. The selector is left as it is, but
  the returned number is the zero value of the named result: with \<open>A\<close> tracked, a second
  ingest of \<open>A\<close> returns 0 while the tracked map has one entry.
\<close>

theorem OnNewSolidMessage_duplicate_returns_zero:
  "OnNewSolidMessage oneTracked (msg ''A'' [] []) = (0, oneTracked)
   \<and> GetTrackedMessagesCount oneTracked = 1"
  by (simp add: eval_defs)

section \<open>Reset after a successful selection\<close>

text \<open>
  Claim C8: after every successful call of SelectTips the selector is reset: the
  tracked map has no entry and the tip list is empty.
\<close>

theorem SelectTips_success_resets:
  "fst (SelectTips e s minRequiredTips) = Inr out \<Longrightarrow>
   GetTrackedMessagesCount (snd (SelectTips e s minRequiredTips)) = 0
   \<and> tips (snd (SelectTips e s minRequiredTips)) = []"
  by (auto simp: SelectTips_def Let_def reset_def GetTrackedMessagesCount_def
      split: prod.splits if_splits)

theorem SelectTips_success_resets_witness:
  "fst (SelectTips calmEnv overlapExample 0) = Inr [''T1'', ''T2'']
   \<and> GetTrackedMessagesCount (snd (SelectTips calmEnv overlapExample 0)) = 0
   \<and> tips (snd (SelectTips calmEnv overlapExample 0)) = []"
  using SelectTips_success_resets [OF overlapExample_select] overlapExample_select by simp

section \<open>Facts about the working list\<close>

lemma referenceTipLoop_frame:
  "trackedMessages (referenceTipLoop t il s) = trackedMessages s
   \<and> tips (referenceTipLoop t il s) = tips s
   \<and> nextAddr (referenceTipLoop t il s) = nextAddr s"
  by (induction t il s rule: referenceTipLoop.induct) simp_all

lemma referenceTipLoop_obj:
  "messageID (objs (referenceTipLoop t il s) a) = messageID (objs s a)
   \<and> tip (objs (referenceTipLoop t il s) a) = tip (objs s a)
   \<and> refs (objs (referenceTipLoop t il s) a) |\<subseteq>| refs (objs s a)"
proof (induction t il s rule: referenceTipLoop.induct)
  case (1 t s)
  show ?case by simp
next
  case (2 t k otherTip rest s)
  then show ?case by (auto split: if_splits)
qed

lemma referenceTipLoop_other:
  "a \<notin> snd ` set il \<Longrightarrow> objs (referenceTipLoop t il s) a = objs s a"
  by (induction t il s rule: referenceTipLoop.induct) auto

lemma referenceTipLoop_refs:
  "t \<notin> snd ` set il \<Longrightarrow> a \<in> snd ` set il \<Longrightarrow>
   refs (objs (referenceTipLoop t il s) a) = refs (objs s a) |-| refs (objs s t)"
proof (induction t il s rule: referenceTipLoop.induct)
  case (1 t s)
  then show ?case by simp
next
  case (2 t k otherTip rest s)
  let ?s' = "s\<lparr>objs := (objs s)(otherTip :=
            (objs s otherTip)\<lparr>refs := refs (objs s otherTip) |-| refs (objs s t)\<rparr>)\<rparr>"
  from 2 have tn: "t \<noteq> otherTip" "t \<notin> snd ` set rest" by auto
  show ?case
  proof (cases "a \<in> snd ` set rest")
    case True
    with 2 tn have "refs (objs (referenceTipLoop t rest ?s') a) = refs (objs ?s' a) |-| refs (objs ?s' t)"
      by blast
    with tn show ?thesis by auto
  next
    case False
    with 2 have "a = otherTip" by auto
    with False tn show ?thesis by (simp add: referenceTipLoop_other)
  qed
qed

lemma selectTipScan_set:
  "set (fst (selectTipScan s il best)) \<subseteq> set (fst best) \<union> snd ` set il"
  by (induction s il best rule: selectTipScan.induct) (auto simp: Let_def)

lemma selectTipScan_mono: "snd best \<le> snd (selectTipScan s il best)"
  by (induction s il best rule: selectTipScan.induct) (auto simp: Let_def)

lemma selectTipScan_max:
  "a \<in> snd ` set il \<Longrightarrow> fcard (refs (objs s a)) \<le> snd (selectTipScan s il best)"
proof (induction s il best rule: selectTipScan.induct)
  case (1 s best)
  then show ?case by simp
next
  case (2 s k t rest bestTips bestCount)
  show ?case
  proof (cases "a \<in> snd ` set rest")
    case True
    with 2 show ?thesis by (auto simp: Let_def)
  next
    case False
    with 2 have "a = t" by auto
    then show ?thesis
      using selectTipScan_mono [of "([t], fcard (refs (objs s t)))" s rest]
        selectTipScan_mono [of "(bestTips @ [t], bestCount)" s rest]
        selectTipScan_mono [of "(bestTips, bestCount)" s rest]
      by (auto simp: Let_def)
  qed
qed

lemma selectTipScan_count:
  "\<forall>a \<in> set (fst best). fcard (refs (objs s a)) = snd best \<Longrightarrow>
   a \<in> set (fst (selectTipScan s il best)) \<Longrightarrow>
   fcard (refs (objs s a)) = snd (selectTipScan s il best)"
  by (induction s il best rule: selectTipScan.induct) (auto simp: Let_def split: if_splits)

lemma selectTipScan_nonempty_keep:
  "fst best \<noteq> [] \<Longrightarrow> fst (selectTipScan s il best) \<noteq> []"
  by (induction s il best rule: selectTipScan.induct) (auto simp: Let_def)

lemma selectTipScan_nonempty:
  "il \<noteq> [] \<Longrightarrow> fst (selectTipScan s il ([], 0)) \<noteq> []"
  by (cases il) (auto simp: Let_def selectTipScan_nonempty_keep split: if_splits)

lemma RandomInsecure_range:
  "0 < n \<Longrightarrow> 0 \<le> RandomInsecure r 0 (int n - 1) \<and> RandomInsecure r 0 (int n - 1) < int n"
  by (simp add: RandomInsecure_def)

lemma selectTip_error: "selectTip s il r = Inl e \<longleftrightarrow> il = []"
  by (cases e) (auto simp: selectTip_def Len_def Let_def selectTipScan_nonempty)

lemma selectTip_Inr:
  assumes "selectTip s il r = Inr (t, c)"
  shows "t \<in> snd ` set il" and "c = fcard (refs (objs s t))"
    and "\<And>a. a \<in> snd ` set il \<Longrightarrow> fcard (refs (objs s a)) \<le> c"
proof -
  let ?best = "selectTipScan s il ([], 0)"
  from assms have ne: "il \<noteq> []" "fst ?best \<noteq> []"
    and t: "t = fst ?best ! nat (RandomInsecure r 0 (int (length (fst ?best)) - 1))"
    and c: "c = snd ?best"
    by (auto simp: selectTip_def Len_def Let_def split: if_splits)
  from ne have "nat (RandomInsecure r 0 (int (length (fst ?best)) - 1)) < length (fst ?best)"
    using RandomInsecure_range [of "length (fst ?best)" r] by auto
  with t have mem: "t \<in> set (fst ?best)" by simp
  with selectTipScan_set [of s il "([], 0)"] show "t \<in> snd ` set il" by auto
  from mem selectTipScan_count [of "([], 0)" s t il] c show "c = fcard (refs (objs s t))" by simp
  fix a assume "a \<in> snd ` set il"
  with selectTipScan_max [of a il s "([], 0)"] c show "fcard (refs (objs s a)) \<le> c" by simp
qed

lemma randomTipLoop_Inr:
  "0 \<le> i \<Longrightarrow> i < int (length il) \<Longrightarrow> randomTipLoop i il = Inr (snd (il ! nat i))"
proof (induction i il rule: randomTipLoop.induct)
  case (1 i)
  then show ?case by simp
next
  case (2 i k t rest)
  show ?case
  proof (cases "i = 0")
    case True
    then show ?thesis by simp
  next
    case False
    with 2 have "randomTipLoop (i - 1) rest = Inr (snd (rest ! nat (i - 1)))" by simp
    moreover from False 2 have "nat i = Suc (nat (i - 1))" by simp
    ultimately show ?thesis using False 2 by simp
  qed
qed

lemma randomTip_error: "randomTip il r = Inl e \<longleftrightarrow> il = []"
proof (cases "il = []")
  case True
  then show ?thesis by (cases e) (simp add: randomTip_def)
next
  case False
  then have "0 < length il" by simp
  from RandomInsecure_range [OF this, of r] False show ?thesis
    by (simp add: randomTip_def randomTipLoop_Inr)
qed

lemma randomTip_Inr: "randomTip il r = Inr t \<Longrightarrow> t \<in> snd ` set il"
proof -
  assume a: "randomTip il r = Inr t"
  then have ne: "il \<noteq> []" by (auto simp: randomTip_def)
  then have "0 < length il" by simp
  from RandomInsecure_range [OF this, of r] a ne
  have "t = snd (il ! nat (RandomInsecure r 0 (int (length il) - 1)))"
    and "nat (RandomInsecure r 0 (int (length il) - 1)) < length il"
    by (auto simp: randomTip_def randomTipLoop_Inr)
  then show ?thesis by (metis image_eqI nth_mem)
qed

section \<open>Invariants of the selection loops\<close>

text \<open>
  What a selection may change in the selector, relative to the selector \<open>s0\<close> at the
  start of the call: the map, the list and the configuration stay, every object keeps
  its ID and its \<open>tip\<close> field, \<open>refs\<close> can only lose bits, and objects outside the tip
  list are not written.
\<close>

definition frame :: "HeaviestSelector \<Rightarrow> HeaviestSelector \<Rightarrow> bool" where
  "frame s0 s \<longleftrightarrow>
     trackedMessages s = trackedMessages s0 \<and> tips s = tips s0 \<and> nextAddr s = nextAddr s0
     \<and> maxHeaviestBranchTipsPerCheckpoint s = maxHeaviestBranchTipsPerCheckpoint s0
     \<and> randomTipsPerCheckpoint s = randomTipsPerCheckpoint s0
     \<and> minHeaviestBranchUnreferencedMessagesThreshold s
         = minHeaviestBranchUnreferencedMessagesThreshold s0
     \<and> (\<forall>a. messageID (objs s a) = messageID (objs s0 a) \<and> tip (objs s a) = tip (objs s0 a)
            \<and> refs (objs s a) |\<subseteq>| refs (objs s0 a))
     \<and> (\<forall>a. a \<notin> set (tips s0) \<longrightarrow> objs s a = objs s0 a)"

text \<open>
  The invariant of both loops: every entry of the working list is a tip of \<open>s0\<close> filed
  under the ID of its message, and the collected IDs are distinct IDs of tips of \<open>s0\<close>
  that are no longer keys of the working list.
\<close>

definition pickInv :: "HeaviestSelector \<Rightarrow> HeaviestSelector \<Rightarrow> trackedMessagesList \<Rightarrow> MessageID list \<Rightarrow> bool" where
  "pickInv s0 s il tps \<longleftrightarrow>
     frame s0 s
     \<and> (\<forall>(k, a) \<in> set il. messageID (objs s a) = k \<and> a \<in> set (tips s0))
     \<and> distinct tps
     \<and> set tps \<inter> fst ` set il = {}
     \<and> set tps \<subseteq> (\<lambda>a. messageID (objs s0 a)) ` set (tips s0)"

lemma frame_refl: "frame s s"
  by (simp add: frame_def)

lemma referenceTip_frame:
  assumes "frame s0 s" and "snd ` set il \<subseteq> set (tips s0)" and "referenceTip s il t = (s', il')"
  shows "frame s0 s'"
proof -
  from assms(3) have s': "s' = referenceTipLoop t (removeTipL s il t) s"
    by (auto simp: referenceTip_def Let_def)
  have sub: "snd ` set (removeTipL s il t) \<subseteq> set (tips s0)"
    using assms(2) by (auto simp: removeTipL_def mapDelete_def)
  have "objs s' a = objs s0 a" if "a \<notin> set (tips s0)" for a
  proof -
    from that sub have "a \<notin> snd ` set (removeTipL s il t)" by blast
    then have "objs s' a = objs s a" unfolding s' by (rule referenceTipLoop_other)
    with assms(1) that show ?thesis by (simp add: frame_def)
  qed
  moreover have "refs (objs s' a) |\<subseteq>| refs (objs s0 a)" for a
  proof -
    have "refs (objs s' a) |\<subseteq>| refs (objs s a)" unfolding s' by (simp add: referenceTipLoop_obj)
    moreover from assms(1) have "refs (objs s a) |\<subseteq>| refs (objs s0 a)" by (simp add: frame_def)
    ultimately show ?thesis by (rule order_trans)
  qed
  ultimately show ?thesis
    using assms(1) unfolding s' frame_def
    by (simp add: referenceTipLoop_frame referenceTipLoop_obj referenceTipLoop_config)
qed

lemma pickInv_step:
  assumes inv: "pickInv s0 s il tps" and t: "t \<in> snd ` set il"
    and r: "referenceTip s il t = (s', il')"
  shows "pickInv s0 s' il' (tps @ [messageID (objs s' t)])"
proof -
  from r have il': "il' = mapDelete (messageID (objs s t)) il"
    by (auto simp: referenceTip_def Let_def removeTipL_def)
  from r have s': "s' = referenceTipLoop t il' s"
    unfolding il' by (auto simp: referenceTip_def Let_def removeTipL_def)
  from inv have fr: "frame s0 s"
    and ent: "\<And>k a. (k, a) \<in> set il \<Longrightarrow> messageID (objs s a) = k \<and> a \<in> set (tips s0)"
    and dis: "distinct tps" and disj: "set tps \<inter> fst ` set il = {}"
    and sub: "set tps \<subseteq> (\<lambda>a. messageID (objs s0 a)) ` set (tips s0)"
    by (auto simp: pickInv_def)
  from ent have vals: "snd ` set il \<subseteq> set (tips s0)" by auto
  have fr': "frame s0 s'" using fr vals r by (rule referenceTip_frame)
  have mid: "messageID (objs s' a) = messageID (objs s a)" for a
    unfolding s' by (simp add: referenceTipLoop_obj)
  from t obtain k where kt: "(k, t) \<in> set il" by auto
  with ent have k: "messageID (objs s t) = k" and tt: "t \<in> set (tips s0)" by auto
  from kt have kin: "k \<in> fst ` set il" by force
  with disj have knew: "k \<notin> set tps" by auto
  have set': "set il' = {kv \<in> set il. fst kv \<noteq> k}"
    by (auto simp: il' mapDelete_def k)
  have "\<forall>(k', a) \<in> set il'. messageID (objs s' a) = k' \<and> a \<in> set (tips s0)"
    using ent by (auto simp: set' mid)
  moreover have "distinct (tps @ [messageID (objs s' t)])"
    using dis knew by (simp add: mid k)
  moreover have "set (tps @ [messageID (objs s' t)]) \<inter> fst ` set il' = {}"
    using disj by (auto simp: set' mid k)
  moreover have "set (tps @ [messageID (objs s' t)]) \<subseteq> (\<lambda>a. messageID (objs s0 a)) ` set (tips s0)"
  proof -
    from fr have "messageID (objs s t) = messageID (objs s0 t)" by (simp add: frame_def)
    with tt have "messageID (objs s' t) \<in> (\<lambda>a. messageID (objs s0 a)) ` set (tips s0)"
      by (auto simp: mid)
    with sub show ?thesis by simp
  qed
  ultimately show ?thesis using fr' by (simp add: pickInv_def)
qed

lemma heaviestIter_Some:
  assumes "heaviestIter e m i (s, il, tps, de) = Some st'"
  obtains t c s' il' where "selectTip s il (randHeaviest e (nat i)) = Inr (t, c)"
    and "referenceTip s il t = (s', il')"
    and "st' = (s', il', tps @ [messageID (objs s' t)], (de \<or> ctxDone e (nat i)))"
  using assms
  by (auto simp: heaviestIter_def Let_def split: sum.splits prod.splits if_splits)

lemma randomIter_Some:
  assumes "randomIter e i (s, il, tps) = Some st'"
  obtains t s' il' where "randomTip il (randPadding e (nat i)) = Inr t"
    and "referenceTip s il t = (s', il')"
    and "st' = (s', il', tps @ [messageID (objs s' t)])"
  using assms
  by (auto simp: randomIter_def Let_def split: sum.splits prod.splits if_splits)

lemma heaviestIter_pickInv:
  assumes "pickInv s0 s il tps" and "heaviestIter e m i (s, il, tps, de) = Some (s', il', tps', de')"
  shows "pickInv s0 s' il' tps'"
proof -
  from assms(2) obtain t c where "selectTip s il (randHeaviest e (nat i)) = Inr (t, c)"
    and r: "referenceTip s il t = (s', il')" and tps': "tps' = tps @ [messageID (objs s' t)]"
    by (auto elim!: heaviestIter_Some)
  then have "t \<in> snd ` set il" by (simp add: selectTip_Inr)
  with assms(1) r show ?thesis unfolding tps' by (simp add: pickInv_step)
qed

lemma randomIter_pickInv:
  assumes "pickInv s0 s il tps" and "randomIter e i (s, il, tps) = Some (s', il', tps')"
  shows "pickInv s0 s' il' tps'"
proof -
  from assms(2) obtain t where "randomTip il (randPadding e (nat i)) = Inr t"
    and r: "referenceTip s il t = (s', il')" and tps': "tps' = tps @ [messageID (objs s' t)]"
    by (auto elim!: randomIter_Some)
  then have "t \<in> snd ` set il" by (simp add: randomTip_Inr)
  with assms(1) r show ?thesis unfolding tps' by (simp add: pickInv_step)
qed

text \<open>An invariant of the loop body is an invariant of the loop.\<close>

lemma heaviestLoop_invariant:
  assumes "P st" and "\<And>j st st'. P st \<Longrightarrow> heaviestIter e m j st = Some st' \<Longrightarrow> P st'"
  shows "P (heaviestLoop e m i st)"
  using assms
proof (induction e m i st rule: heaviestLoop.induct)
  case (1 e m i st)
  show ?case
  proof (cases "i < maxHeaviestBranchTipsPerCheckpoint (fst st)")
    case False
    with 1 show ?thesis by (simp add: heaviestLoop.simps)
  next
    case True
    show ?thesis
    proof (cases "heaviestIter e m i st")
      case None
      with True 1 show ?thesis by (simp add: heaviestLoop.simps)
    next
      case (Some st')
      from "1.prems"(1) Some have "P st'" by (rule "1.prems"(2))
      with True Some have "P (heaviestLoop e m (i + 1) st')" using "1.prems"(2) by (rule "1.IH")
      with True Some show ?thesis by (simp add: heaviestLoop.simps [of e m i st])
    qed
  qed
qed

lemma randomLoop_invariant:
  assumes "P st" and "\<And>j st st'. P st \<Longrightarrow> randomIter e j st = Some st' \<Longrightarrow> P st'"
  shows "P (randomLoop e i st)"
  using assms
proof (induction e i st rule: randomLoop.induct)
  case (1 e i st)
  show ?case
  proof (cases "i < randomTipsPerCheckpoint (fst st)")
    case False
    with 1 show ?thesis by (simp add: randomLoop.simps)
  next
    case True
    show ?thesis
    proof (cases "randomIter e i st")
      case None
      with True 1 show ?thesis by (simp add: randomLoop.simps)
    next
      case (Some st')
      from "1.prems"(1) Some have "P st'" by (rule "1.prems"(2))
      with True Some have "P (randomLoop e (i + 1) st')" using "1.prems"(2) by (rule "1.IH")
      with True Some show ?thesis by (simp add: randomLoop.simps [of e i st])
    qed
  qed
qed

lemma heaviestLoop_pickInv:
  assumes "pickInv s0 s il tps" and "heaviestLoop e m i (s, il, tps, de) = (s', il', tps', de')"
  shows "pickInv s0 s' il' tps'"
proof -
  have "(\<lambda>st. pickInv s0 (fst st) (fst (snd st)) (fst (snd (snd st)))) (heaviestLoop e m i (s, il, tps, de))"
    by (rule heaviestLoop_invariant) (use assms(1) in \<open>auto intro: heaviestIter_pickInv\<close>)
  with assms(2) show ?thesis by simp
qed

lemma randomLoop_pickInv:
  assumes "pickInv s0 s il tps" and "randomLoop e i (s, il, tps) = (s', il', tps')"
  shows "pickInv s0 s' il' tps'"
proof -
  have "(\<lambda>st. pickInv s0 (fst st) (fst (snd st)) (snd (snd st))) (randomLoop e i (s, il, tps))"
    by (rule randomLoop_invariant) (use assms(1) in \<open>auto intro: randomIter_pickInv\<close>)
  with assms(2) show ?thesis by simp
qed

subsection \<open>The snapshot\<close>

lemma mapPut_set: "set (mapPut k v il) \<subseteq> insert (k, v) (set il)"
  by (induction k v il rule: mapPut.induct) auto

lemma mapPut_nonempty: "mapPut k v il \<noteq> []"
  by (cases il) (auto split: if_splits)

lemma tipsToListLoop_set:
  "set (tipsToListLoop s es result) \<subseteq> set result \<union> (\<lambda>a. (messageID (objs s a), a)) ` set es"
proof (induction s es result rule: tipsToListLoop.induct)
  case (1 s result)
  show ?case by simp
next
  case (2 s e es result)
  with mapPut_set [of "messageID (objs s e)" e result] show ?case by auto
qed

lemma tipsToListLoop_nonempty: "result \<noteq> [] \<Longrightarrow> tipsToListLoop s es result \<noteq> []"
  by (induction s es result rule: tipsToListLoop.induct) (simp_all add: mapPut_nonempty)

lemma tipsToList_empty: "tipsToList s = [] \<longleftrightarrow> tips s = []"
  by (cases "tips s") (simp_all add: tipsToList_def tipsToListLoop_nonempty mapPut_nonempty)

lemma tipsToList_entries:
  "(k, a) \<in> set (tipsToList s) \<Longrightarrow> messageID (objs s a) = k \<and> a \<in> set (tips s)"
  using tipsToListLoop_set [of s "tips s" "[]"] by (auto simp: tipsToList_def)

lemma pickInv_start: "pickInv s s (tipsToList s) []"
  by (auto simp: pickInv_def frame_refl dest: tipsToList_entries)

subsection \<open>How many tips the loops collect\<close>

lemma heaviestLoop_length:
  "heaviestLoop e m i (s, il, tps, de) = (s', il', tps', de') \<Longrightarrow>
   length tps \<le> length tps'
   \<and> int (length tps') \<le> int (length tps) + max 0 (maxHeaviestBranchTipsPerCheckpoint s - i)"
proof (induction e m i "(s, il, tps, de)" arbitrary: s il tps de rule: heaviestLoop.induct)
  case (1 e m i)
  show ?case
  proof (cases "i < maxHeaviestBranchTipsPerCheckpoint s")
    case False
    with "1.prems" show ?thesis by (simp add: heaviestLoop.simps)
  next
    case True
    show ?thesis
    proof (cases "heaviestIter e m i (s, il, tps, de)")
      case None
      with True "1.prems" show ?thesis by (simp add: heaviestLoop.simps)
    next
      case (Some st1)
      obtain s1 il1 tps1 de1 where st1: "st1 = (s1, il1, tps1, de1)" by (cases st1) auto
      from Some st1 have len: "length tps1 = Suc (length tps)"
        by (auto elim!: heaviestIter_Some)
      from Some st1 have mx: "maxHeaviestBranchTipsPerCheckpoint s1 = maxHeaviestBranchTipsPerCheckpoint s"
        using heaviestIter_max [of e m i "(s, il, tps, de)" st1] by simp
      from True Some st1 "1.prems" have "heaviestLoop e m (i + 1) (s1, il1, tps1, de1) = (s', il', tps', de')"
        by (simp add: heaviestLoop.simps [of e m i])
      with "1.hyps" True Some st1
      have "length tps1 \<le> length tps'
         \<and> int (length tps') \<le> int (length tps1) + max 0 (maxHeaviestBranchTipsPerCheckpoint s1 - (i + 1))"
        by simp
      with len mx True show ?thesis by simp
    qed
  qed
qed

lemma randomLoop_length:
  "randomLoop e i (s, il, tps) = (s', il', tps') \<Longrightarrow>
   length tps \<le> length tps'
   \<and> int (length tps') \<le> int (length tps) + max 0 (randomTipsPerCheckpoint s - i)"
proof (induction e i "(s, il, tps)" arbitrary: s il tps rule: randomLoop.induct)
  case (1 e i)
  show ?case
  proof (cases "i < randomTipsPerCheckpoint s")
    case False
    with "1.prems" show ?thesis by (simp add: randomLoop.simps)
  next
    case True
    show ?thesis
    proof (cases "randomIter e i (s, il, tps)")
      case None
      with True "1.prems" show ?thesis by (simp add: randomLoop.simps)
    next
      case (Some st1)
      obtain s1 il1 tps1 where st1: "st1 = (s1, il1, tps1)" by (cases st1) auto
      from Some st1 have len: "length tps1 = Suc (length tps)"
        by (auto elim!: randomIter_Some)
      from Some st1 have mx: "randomTipsPerCheckpoint s1 = randomTipsPerCheckpoint s"
        using randomIter_random [of e i "(s, il, tps)" st1] by simp
      from True Some st1 "1.prems" have "randomLoop e (i + 1) (s1, il1, tps1) = (s', il', tps')"
        by (simp add: randomLoop.simps [of e i])
      with "1.hyps" True Some st1
      have "length tps1 \<le> length tps'
         \<and> int (length tps') \<le> int (length tps1) + max 0 (randomTipsPerCheckpoint s1 - (i + 1))"
        by simp
      with len mx True show ?thesis by simp
    qed
  qed
qed

text \<open>A heaviest loop that collects nothing has written nothing.\<close>

lemma heaviestLoop_nothing:
  assumes "heaviestLoop e m i (s, il, tps, de) = (s', il', tps', de')" and "length tps' = length tps"
  shows "s' = s \<and> il' = il"
proof (cases "i < maxHeaviestBranchTipsPerCheckpoint s")
  case False
  with assms show ?thesis by (simp add: heaviestLoop.simps)
next
  case True
  show ?thesis
  proof (cases "heaviestIter e m i (s, il, tps, de)")
    case None
    with True assms show ?thesis by (simp add: heaviestLoop.simps)
  next
    case (Some st1)
    obtain s1 il1 tps1 de1 where st1: "st1 = (s1, il1, tps1, de1)" by (cases st1) auto
    from Some st1 have len: "length tps1 = Suc (length tps)"
      by (auto elim!: heaviestIter_Some)
    from True Some st1 assms have "heaviestLoop e m (i + 1) (s1, il1, tps1, de1) = (s', il', tps', de')"
      by (simp add: heaviestLoop.simps [of e m i])
    from heaviestLoop_length [OF this] len assms(2) show ?thesis by simp
  qed
qed

section \<open>Failure of SelectTips\<close>

lemma overlapExample_late:
  "SelectTips lateEnv overlapExample (- 1) = (Inl ErrNoTipsAvailable, overlapExample)"
  by (simp add: eval_defs)

text \<open>
  Claim C4: SelectTips returns the error NoTipsAvailable exactly when the tip list is
  empty at call time or, after the snapshot, the heaviest loop has selected no tip; and
  whenever it fails, the selector it leaves (tracked map, tip list, every object with
  its bitset) is the selector before the call.
\<close>

theorem SelectTips_error_iff:
  "(fst (SelectTips e s minRequiredTips) = Inl ErrNoTipsAvailable \<longleftrightarrow>
      tips s = []
      \<or> fst (snd (snd (heaviestLoop e minRequiredTips 0 (s, tipsToList s, [], False)))) = [])
   \<and> (fst (SelectTips e s minRequiredTips) = Inl ErrNoTipsAvailable \<longrightarrow>
      snd (SelectTips e s minRequiredTips) = s)"
proof (cases "tips s = []")
  case True
  then have "tipsToList s = []" by (simp add: tipsToList_empty)
  with True show ?thesis by (simp add: SelectTips_def Len_def)
next
  case False
  then have ne: "tipsToList s \<noteq> []" by (simp add: tipsToList_empty)
  obtain s1 il1 tps1 de1
    where loop: "heaviestLoop e minRequiredTips 0 (s, tipsToList s, [], False) = (s1, il1, tps1, de1)"
    by (cases "heaviestLoop e minRequiredTips 0 (s, tipsToList s, [], False)") auto
  show ?thesis
  proof (cases "tps1 = []")
    case True
    with heaviestLoop_nothing [OF loop] have "s1 = s" by simp
    with True ne loop False show ?thesis by (simp add: SelectTips_def Len_def)
  next
    case nonempty: False
    with ne loop False show ?thesis
      by (simp add: SelectTips_def Len_def split: prod.splits)
  qed
qed

lemma New_select: "SelectTips calmEnv (New 3 2 1 100) 0 = (Inl ErrNoTipsAvailable, New 3 2 1 100)"
  by (simp add: eval_defs)

theorem SelectTips_error_iff_witness:
  "fst (SelectTips calmEnv (New 3 2 1 100) 0) = Inl ErrNoTipsAvailable
   \<and> tips (New 3 2 1 100) = []
   \<and> snd (SelectTips calmEnv (New 3 2 1 100) 0) = New 3 2 1 100
   \<and> fst (SelectTips lateEnv overlapExample (- 1)) = Inl ErrNoTipsAvailable
   \<and> tips overlapExample \<noteq> []
   \<and> fst (snd (snd (heaviestLoop lateEnv (- 1) 0
        (overlapExample, tipsToList overlapExample, [], False)))) = []
   \<and> snd (SelectTips lateEnv overlapExample (- 1)) = overlapExample"
proof -
  have e: "tips (New 3 2 1 100) = []" by (simp add: New_def reset_def)
  from SelectTips_error_iff [of calmEnv "New 3 2 1 100" 0] New_select e
  have "fst (SelectTips calmEnv (New 3 2 1 100) 0) = Inl ErrNoTipsAvailable
      \<and> snd (SelectTips calmEnv (New 3 2 1 100) 0) = New 3 2 1 100"
    by simp
  moreover from SelectTips_error_iff [of lateEnv overlapExample "- 1"] overlapExample_late
    overlapExample_tips
  have "fst (SelectTips lateEnv overlapExample (- 1)) = Inl ErrNoTipsAvailable
      \<and> tips overlapExample \<noteq> []
      \<and> fst (snd (snd (heaviestLoop lateEnv (- 1) 0
           (overlapExample, tipsToList overlapExample, [], False)))) = []
      \<and> snd (SelectTips lateEnv overlapExample (- 1)) = overlapExample"
    by simp
  ultimately show ?thesis using e by blast
qed

section \<open>The tips a successful selection returns\<close>

lemma SelectTips_success:
  assumes "fst (SelectTips e s m) = Inr out"
  obtains s1 il1 tps1 de1 s2 il2
  where "heaviestLoop e m 0 (s, tipsToList s, [], False) = (s1, il1, tps1, de1)"
    and "tps1 \<noteq> []"
    and "randomLoop e 0 (s1, il1, tps1) = (s2, il2, out)"
    and "snd (SelectTips e s m) = reset s2"
  using assms
  by (auto simp: SelectTips_def Let_def split: if_splits prod.splits)

lemma SelectTips_success_pickInv:
  assumes "fst (SelectTips e s m) = Inr out"
  obtains s2 il2 where "pickInv s s2 il2 out" and "snd (SelectTips e s m) = reset s2"
proof -
  from assms obtain s1 il1 tps1 de1 s2 il2
    where h: "heaviestLoop e m 0 (s, tipsToList s, [], False) = (s1, il1, tps1, de1)"
      and r: "randomLoop e 0 (s1, il1, tps1) = (s2, il2, out)"
      and fin: "snd (SelectTips e s m) = reset s2"
    by (rule SelectTips_success)
  from pickInv_start h have "pickInv s s1 il1 tps1" by (rule heaviestLoop_pickInv)
  from this r have "pickInv s s2 il2 out" by (rule randomLoop_pickInv)
  from this fin show ?thesis by (rule that)
qed

text \<open>
  Claim C7: a successful SelectTips returns a non-empty sequence of message IDs, each the
  ID of a message in the tip list at call time, of a length between 1 and
  max_heaviest_tips + random_tips. The configuration has random_tips \<ge> 0.
\<close>

theorem SelectTips_output:
  assumes "fst (SelectTips e s minRequiredTips) = Inr out"
    and "0 \<le> randomTipsPerCheckpoint s"
  shows "out \<noteq> []
    \<and> set out \<subseteq> (\<lambda>a. messageID (objs s a)) ` set (tips s)
    \<and> 1 \<le> length out
    \<and> int (length out) \<le> maxHeaviestBranchTipsPerCheckpoint s + randomTipsPerCheckpoint s"
proof -
  from assms(1) obtain s1 il1 tps1 de1 s2 il2
    where h: "heaviestLoop e minRequiredTips 0 (s, tipsToList s, [], False) = (s1, il1, tps1, de1)"
      and ne: "tps1 \<noteq> []"
      and r: "randomLoop e 0 (s1, il1, tps1) = (s2, il2, out)"
    by (rule SelectTips_success)
  from pickInv_start h have inv1: "pickInv s s1 il1 tps1" by (rule heaviestLoop_pickInv)
  from this r have inv2: "pickInv s s2 il2 out" by (rule randomLoop_pickInv)
  from inv1 have rt: "randomTipsPerCheckpoint s1 = randomTipsPerCheckpoint s"
    by (simp add: pickInv_def frame_def)
  from heaviestLoop_length [OF h]
  have l1: "int (length tps1) \<le> max 0 (maxHeaviestBranchTipsPerCheckpoint s)" by simp
  from ne have pos: "1 \<le> length tps1" by (cases tps1) auto
  from randomLoop_length [OF r] rt assms(2)
  have l2: "length tps1 \<le> length out"
    and l3: "int (length out) \<le> int (length tps1) + randomTipsPerCheckpoint s" by auto
  from pos l2 have "1 \<le> length out" by simp
  moreover from this have "out \<noteq> []" by auto
  moreover from inv2 have "set out \<subseteq> (\<lambda>a. messageID (objs s a)) ` set (tips s)"
    by (simp add: pickInv_def)
  moreover from l1 pos l3
  have "int (length out) \<le> maxHeaviestBranchTipsPerCheckpoint s + randomTipsPerCheckpoint s"
    by auto
  ultimately show ?thesis by blast
qed

lemma overlapExample_random: "randomTipsPerCheckpoint overlapExample = 1"
  by (simp add: eval_defs)

theorem SelectTips_output_witness:
  "fst (SelectTips calmEnv overlapExample 0) = Inr [''T1'', ''T2'']
   \<and> 0 \<le> randomTipsPerCheckpoint overlapExample
   \<and> set [''T1'', ''T2''] \<subseteq> (\<lambda>a. messageID (objs overlapExample a)) ` set (tips overlapExample)
   \<and> int (length [''T1'', ''T2''])
       \<le> maxHeaviestBranchTipsPerCheckpoint overlapExample + randomTipsPerCheckpoint overlapExample"
proof -
  have r: "0 \<le> randomTipsPerCheckpoint overlapExample" by (simp add: overlapExample_random)
  from SelectTips_output [OF overlapExample_select r] overlapExample_select r
  show ?thesis by blast
qed

text \<open>
  Claim C10: the message IDs a successful SelectTips returns are pairwise distinct: a
  picked tip leaves the working list before the next pick.
\<close>

theorem SelectTips_distinct:
  "fst (SelectTips e s minRequiredTips) = Inr out \<Longrightarrow> distinct out"
  by (erule SelectTips_success_pickInv) (simp add: pickInv_def)

theorem SelectTips_distinct_witness:
  "fst (SelectTips calmEnv overlapExample 0) = Inr [''T1'', ''T2''] \<and> distinct [''T1'', ''T2'']"
  using SelectTips_distinct [OF overlapExample_select] overlapExample_select by blast

section \<open>What a selection writes\<close>






section \<open>The iterations of the heaviest loop\<close>

text \<open>
  \<open>heaviestRun e m s0 i st\<close>: in the call \<^verbatim>\<open>SelectTips(m)\<close> on the selector \<open>s0\<close>, the
  heaviest loop reaches the head of iteration \<open>i\<close> in the state \<open>st\<close>.
\<close>

inductive heaviestRun :: "env \<Rightarrow> int \<Rightarrow> HeaviestSelector \<Rightarrow> int \<Rightarrow> heaviestState \<Rightarrow> bool"
  for e :: env and m :: int and s0 :: HeaviestSelector where
  start: "heaviestRun e m s0 0 (s0, tipsToList s0, [], False)"
| step: "heaviestRun e m s0 i st \<Longrightarrow> i < maxHeaviestBranchTipsPerCheckpoint (fst st) \<Longrightarrow>
         heaviestIter e m i st = Some st' \<Longrightarrow> heaviestRun e m s0 (i + 1) st'"

lemma heaviestRun_pickInv_aux:
  "heaviestRun e m s0 i st \<Longrightarrow> pickInv s0 (fst st) (fst (snd st)) (fst (snd (snd st)))"
proof (induction rule: heaviestRun.induct)
  case start
  show ?case by (simp add: pickInv_start)
next
  case (step i st st')
  obtain s il tps de where st: "st = (s, il, tps, de)" by (cases st) auto
  obtain s' il' tps' de' where st': "st' = (s', il', tps', de')" by (cases st') auto
  from step st st' show ?case by (auto intro: heaviestIter_pickInv)
qed

lemma heaviestRun_pickInv: "heaviestRun e m s0 i (s, il, tps, de) \<Longrightarrow> pickInv s0 s il tps"
  by (drule heaviestRun_pickInv_aux) simp

lemma uintOf_nonneg: "0 \<le> n \<Longrightarrow> n < 2 ^ 63 \<Longrightarrow> uintOf n = nat n"
  by (simp add: uintOf_def)

text \<open>
  Claim C5: in every iteration of the heaviest loop, the chosen candidate \<open>t\<close> with
  contribution \<open>c\<close> is discarded (the loop breaks, nothing is appended) if and only if the
  output already holds more than min_required tips and \<open>c\<close> is below
  min_heaviest_threshold or the deadline has passed; otherwise the ID of \<open>t\<close> is
  appended, \<open>t\<close> leaves the working list and the bitset of \<open>t\<close> is subtracted from the
  bitset of every remaining entry. The threshold is a non-negative \<^verbatim>\<open>int\<close>, as the
  configuration of the spec has it.
\<close>

theorem heaviestIter_decision:
  assumes run: "heaviestRun e minRequiredTips s0 i (s, il, tps, de)"
    and cand: "selectTip s il (randHeaviest e (nat i)) = Inr (t, c)"
    and thr: "0 \<le> minHeaviestBranchUnreferencedMessagesThreshold s0"
      "minHeaviestBranchUnreferencedMessagesThreshold s0 < 2 ^ 63"
  shows "if int (length tps) > minRequiredTips
            \<and> (int c < minHeaviestBranchUnreferencedMessagesThreshold s0 \<or> de \<or> ctxDone e (nat i))
         then heaviestIter e minRequiredTips i (s, il, tps, de) = None
         else (\<exists>s'. heaviestIter e minRequiredTips i (s, il, tps, de)
                  = Some (s', mapDelete (messageID (objs s t)) il, tps @ [messageID (objs s t)],
                          de \<or> ctxDone e (nat i))
                \<and> t \<notin> snd ` set (mapDelete (messageID (objs s t)) il)
                \<and> (\<forall>otherTip \<in> snd ` set (mapDelete (messageID (objs s t)) il).
                      refs (objs s' otherTip) = refs (objs s otherTip) |-| refs (objs s t)))"
proof -
  let ?il' = "mapDelete (messageID (objs s t)) il"
  let ?s' = "referenceTipLoop t ?il' s"
  from run have inv: "pickInv s0 s il tps" by (rule heaviestRun_pickInv)
  then have cfg: "minHeaviestBranchUnreferencedMessagesThreshold s
      = minHeaviestBranchUnreferencedMessagesThreshold s0"
    by (simp add: pickInv_def frame_def)
  with thr have u: "uintOf (minHeaviestBranchUnreferencedMessagesThreshold s)
      = nat (minHeaviestBranchUnreferencedMessagesThreshold s0)"
    by (simp add: uintOf_nonneg)
  from thr(1) have lt: "c < nat (minHeaviestBranchUnreferencedMessagesThreshold s0)
      \<longleftrightarrow> int c < minHeaviestBranchUnreferencedMessagesThreshold s0" by auto
  from inv have ent: "\<And>k a. (k, a) \<in> set il \<Longrightarrow> messageID (objs s a) = k"
    by (auto simp: pickInv_def)
  have notin: "t \<notin> snd ` set ?il'"
  proof
    assume "t \<in> snd ` set ?il'"
    then obtain k where "(k, t) \<in> set il" and "k \<noteq> messageID (objs s t)"
      by (auto simp: mapDelete_def)
    with ent show False by auto
  qed
  have rt: "referenceTip s il t = (?s', ?il')"
    by (simp add: referenceTip_def removeTipL_def Let_def)
  have mid: "messageID (objs ?s' t) = messageID (objs s t)"
    by (simp add: referenceTipLoop_obj)
  show ?thesis
  proof (cases "int (length tps) > minRequiredTips
            \<and> (int c < minHeaviestBranchUnreferencedMessagesThreshold s0 \<or> de \<or> ctxDone e (nat i))")
    case True
    with cand u lt show ?thesis by (auto simp: heaviestIter_def Let_def)
  next
    case False
    with cand u lt rt mid
    have "heaviestIter e minRequiredTips i (s, il, tps, de)
        = Some (?s', ?il', tps @ [messageID (objs s t)], de \<or> ctxDone e (nat i))"
      by (auto simp: heaviestIter_def Let_def)
    moreover have "\<forall>otherTip \<in> snd ` set ?il'.
        refs (objs ?s' otherTip) = refs (objs s otherTip) |-| refs (objs s t)"
      using notin by (auto simp: referenceTipLoop_refs)
    ultimately show ?thesis using False notin by auto
  qed
qed

lemma overlapExample_candidate:
  "selectTip overlapExample (tipsToList overlapExample) (randHeaviest calmEnv (nat 0)) = Inr (3, 3)"
  by (simp add: eval_defs eval_nat_numeral)

lemma overlapExample_threshold: "minHeaviestBranchUnreferencedMessagesThreshold overlapExample = 3"
  by (simp add: eval_defs)

theorem heaviestIter_decision_witness:
  "heaviestRun calmEnv 0 overlapExample 0 (overlapExample, tipsToList overlapExample, [], False)
   \<and> selectTip overlapExample (tipsToList overlapExample) (randHeaviest calmEnv (nat 0)) = Inr (3, 3)
   \<and> 0 \<le> minHeaviestBranchUnreferencedMessagesThreshold overlapExample
   \<and> minHeaviestBranchUnreferencedMessagesThreshold overlapExample < 2 ^ 63
   \<and> heaviestIter calmEnv 0 0 (overlapExample, tipsToList overlapExample, [], False) \<noteq> None"
proof -
  have r: "heaviestRun calmEnv 0 overlapExample 0 (overlapExample, tipsToList overlapExample, [], False)"
    by (rule heaviestRun.start)
  have t1: "0 \<le> minHeaviestBranchUnreferencedMessagesThreshold overlapExample"
    and t2: "minHeaviestBranchUnreferencedMessagesThreshold overlapExample < 2 ^ 63"
    by (simp_all add: overlapExample_threshold)
  from heaviestIter_decision [OF r overlapExample_candidate t1 t2]
  have "heaviestIter calmEnv 0 0 (overlapExample, tipsToList overlapExample, [], False) \<noteq> None"
    by auto
  with r overlapExample_candidate t1 t2 show ?thesis by blast
qed

section \<open>The contributions of the heaviest picks\<close>

text \<open>
  \<^verbatim>\<open>SelectTips\<close> does not keep the \<^verbatim>\<open>count\<close> that \<^verbatim>\<open>selectTip\<close> returns. To speak
  about it, \<open>heaviestCounts\<close> runs the heaviest loop as \<open>heaviestLoop\<close> does and
  collects, for every tip the loop appends, the count returned with it.
\<close>

definition pickCount :: "env \<Rightarrow> int \<Rightarrow> heaviestState \<Rightarrow> nat" where
  "pickCount e i st =
     (case selectTip (fst st) (fst (snd st)) (randHeaviest e (nat i)) of
        Inl err \<Rightarrow> 0
      | Inr (t, count) \<Rightarrow> count)"

function heaviestCounts :: "env \<Rightarrow> int \<Rightarrow> int \<Rightarrow> heaviestState \<Rightarrow> nat list" where
  "heaviestCounts e minRequiredTips i st =
     (if i < maxHeaviestBranchTipsPerCheckpoint (fst st) then
        (case heaviestIter e minRequiredTips i st of
           None \<Rightarrow> []
         | Some st' \<Rightarrow> pickCount e i st # heaviestCounts e minRequiredTips (i + 1) st')
      else [])"
  by pat_completeness auto
termination
  by (relation "measure (\<lambda>(e, m, i, st). nat (maxHeaviestBranchTipsPerCheckpoint (fst st) - i))")
     (auto dest: heaviestIter_max)

declare heaviestCounts.simps [simp del]

text \<open>One count for every tip the heaviest loop appends.\<close>

lemma heaviestCounts_length:
  "length (fst (snd (snd (heaviestLoop e m i st))))
     = length (fst (snd (snd st))) + length (heaviestCounts e m i st)"
proof (induction e m i st rule: heaviestLoop.induct)
  case (1 e m i st)
  show ?case
  proof (cases "i < maxHeaviestBranchTipsPerCheckpoint (fst st)")
    case False
    then show ?thesis by (simp add: heaviestLoop.simps heaviestCounts.simps)
  next
    case True
    show ?thesis
    proof (cases "heaviestIter e m i st")
      case None
      with True show ?thesis by (simp add: heaviestLoop.simps heaviestCounts.simps)
    next
      case (Some st')
      obtain s il tps de where st: "st = (s, il, tps, de)" by (cases st) auto
      from Some st have "length (fst (snd (snd st'))) = Suc (length (fst (snd (snd st))))"
        by (auto elim!: heaviestIter_Some)
      with "1.IH" [OF True Some] True Some show ?thesis
        by (simp add: heaviestLoop.simps [of e m i st] heaviestCounts.simps [of e m i st])
    qed
  qed
qed

text \<open>After a pick with count \<open>c\<close>, no entry of the working list counts more than \<open>c\<close>.\<close>

lemma heaviestIter_counts:
  assumes it: "heaviestIter e m i (s, il, tps, de) = Some (s', il', tps', de')"
  shows "\<exists>t \<in> snd ` set il. pickCount e i (s, il, tps, de) = fcard (refs (objs s t))"
    and "\<And>a. a \<in> snd ` set il' \<Longrightarrow>
          a \<in> snd ` set il \<and> fcard (refs (objs s' a)) \<le> fcard (refs (objs s a))"
    and "\<And>a. a \<in> snd ` set il' \<Longrightarrow> fcard (refs (objs s' a)) \<le> pickCount e i (s, il, tps, de)"
proof -
  from it obtain t c where sel: "selectTip s il (randHeaviest e (nat i)) = Inr (t, c)"
    and r: "referenceTip s il t = (s', il')"
    by (auto elim!: heaviestIter_Some)
  from sel have pc: "pickCount e i (s, il, tps, de) = c" by (simp add: pickCount_def)
  from r have il': "il' = mapDelete (messageID (objs s t)) il"
    by (auto simp: referenceTip_def Let_def removeTipL_def)
  from r have s': "s' = referenceTipLoop t il' s"
    unfolding il' by (auto simp: referenceTip_def Let_def removeTipL_def)
  have sub: "a \<in> snd ` set il" if "a \<in> snd ` set il'" for a
    using that by (auto simp: il' mapDelete_def)
  have le: "fcard (refs (objs s' a)) \<le> fcard (refs (objs s a))" for a
    unfolding s' by (rule fcard_mono) (simp add: referenceTipLoop_obj)
  from selectTip_Inr(1) [OF sel] selectTip_Inr(2) [OF sel] pc
  show "\<exists>t \<in> snd ` set il. pickCount e i (s, il, tps, de) = fcard (refs (objs s t))" by blast
  show "a \<in> snd ` set il \<and> fcard (refs (objs s' a)) \<le> fcard (refs (objs s a))"
    if "a \<in> snd ` set il'" for a
    using sub [OF that] le [of a] by simp
  show "fcard (refs (objs s' a)) \<le> pickCount e i (s, il, tps, de)" if "a \<in> snd ` set il'" for a
  proof -
    from sub [OF that] have "fcard (refs (objs s a)) \<le> c" by (rule selectTip_Inr(3) [OF sel])
    with le [of a] pc show ?thesis by simp
  qed
qed

lemma heaviestCounts_bound:
  "\<forall>a \<in> snd ` set (fst (snd st)). fcard (refs (objs (fst st) a)) \<le> b \<Longrightarrow>
   \<forall>c \<in> set (heaviestCounts e m i st). c \<le> b"
proof (induction e m i st rule: heaviestCounts.induct)
  case (1 e m i st)
  obtain s il tps de where st: "st = (s, il, tps, de)" by (cases st) auto
  show ?case
  proof (cases "i < maxHeaviestBranchTipsPerCheckpoint (fst st)")
    case False
    then show ?thesis by (simp add: heaviestCounts.simps)
  next
    case True
    show ?thesis
    proof (cases "heaviestIter e m i st")
      case None
      with True show ?thesis by (simp add: heaviestCounts.simps)
    next
      case (Some st')
      obtain s' il' tps' de' where st': "st' = (s', il', tps', de')" by (cases st') auto
      note it = Some [unfolded st st']
      from heaviestIter_counts(1) [OF it] "1.prems" have hd: "pickCount e i st \<le> b"
        unfolding st by auto
      have "\<forall>a \<in> snd ` set (fst (snd st')). fcard (refs (objs (fst st') a)) \<le> b"
      proof
        fix a assume "a \<in> snd ` set (fst (snd st'))"
        then have "a \<in> snd ` set il'" by (simp add: st')
        from heaviestIter_counts(2) [OF it this] "1.prems"
        show "fcard (refs (objs (fst st') a)) \<le> b" unfolding st st' by fastforce
      qed
      with "1.IH" [OF True Some] have "\<forall>c \<in> set (heaviestCounts e m (i + 1) st'). c \<le> b" .
      with hd True Some show ?thesis by (simp add: heaviestCounts.simps [of e m i st])
    qed
  qed
qed

lemma heaviestCounts_sorted: "sorted_wrt (\<ge>) (heaviestCounts e m i st)"
proof (induction e m i st rule: heaviestCounts.induct)
  case (1 e m i st)
  show ?case
  proof (cases "i < maxHeaviestBranchTipsPerCheckpoint (fst st)")
    case False
    then show ?thesis by (simp add: heaviestCounts.simps)
  next
    case True
    show ?thesis
    proof (cases "heaviestIter e m i st")
      case None
      with True show ?thesis by (simp add: heaviestCounts.simps)
    next
      case (Some st')
      obtain s il tps de where st: "st = (s, il, tps, de)" by (cases st) auto
      obtain s' il' tps' de' where st': "st' = (s', il', tps', de')" by (cases st') auto
      note it = Some [unfolded st st']
      have "\<forall>a \<in> snd ` set (fst (snd st')). fcard (refs (objs (fst st') a)) \<le> pickCount e i st"
        using heaviestIter_counts(3) [OF it] unfolding st st' by simp
      then have "\<forall>c \<in> set (heaviestCounts e m (i + 1) st'). c \<le> pickCount e i st"
        by (rule heaviestCounts_bound)
      with "1.IH" [OF True Some] True Some show ?thesis
        by (simp add: heaviestCounts.simps [of e m i st])
    qed
  qed
qed

text \<open>
  Claim C6: in every call of SelectTips the contributions of the heaviest picks are
  non-increasing: \<open>c\<^sub>1 \<ge> c\<^sub>2 \<ge> \<dots>\<close>, in the order of the picks. There is one
  contribution for every tip the heaviest loop appends.
\<close>

theorem heaviestCounts_nonincreasing:
  "sorted_wrt (\<ge>) (heaviestCounts e minRequiredTips 0 (s, tipsToList s, [], False))
   \<and> length (heaviestCounts e minRequiredTips 0 (s, tipsToList s, [], False))
       = length (fst (snd (snd (heaviestLoop e minRequiredTips 0 (s, tipsToList s, [], False)))))"
  by (simp add: heaviestCounts_sorted heaviestCounts_length)

lemma overlapExample_counts:
  "heaviestCounts calmEnv 1 0 (overlapExample, tipsToList overlapExample, [], False) = [3, 2]"
  by (simp add: eval_defs heaviestCounts.simps pickCount_def eval_nat_numeral)

section \<open>Sequences of ingests in solidification order\<close>

text \<open>The IDs of a sequence of ingested messages.\<close>

definition mids :: "MessageMetadata list \<Rightarrow> MessageID set" where
  "mids msgs = GetMessageID ` set msgs"

text \<open>
  \<^verbatim>\<open>OnNewSolidMessage\<close> must be called in the order of solidification: a parent is
  never ingested after its child, or as its own child. At every ingest, each parent has
  been ingested before (\<open>seen\<close>) or is not ingested at all in the rest of the sequence.
\<close>

fun solidOrderFrom :: "MessageID set \<Rightarrow> MessageMetadata list \<Rightarrow> bool" where
  "solidOrderFrom seen [] = True"
| "solidOrderFrom seen (m # ms) =
     ((GetParent1MessageID m \<in> seen \<or> GetParent1MessageID m \<notin> mids (m # ms))
      \<and> (GetParent2MessageID m \<in> seen \<or> GetParent2MessageID m \<notin> mids (m # ms))
      \<and> solidOrderFrom (insert (GetMessageID m) seen) ms)"

definition solidOrder :: "MessageMetadata list \<Rightarrow> bool" where
  "solidOrder msgs = solidOrderFrom {} msgs"

text \<open>
  The parents of a message ID, as the first ingest of that ID gave them (a later ingest
  of the same ID is filtered), and the relation "child, parent" they make.
\<close>

definition parentsOf :: "MessageMetadata list \<Rightarrow> MessageID \<rightharpoonup> MessageID \<times> MessageID" where
  "parentsOf msgs =
     map_of (map (\<lambda>m. (GetMessageID m, (GetParent1MessageID m, GetParent2MessageID m))) msgs)"

definition parentRel :: "MessageMetadata list \<Rightarrow> (MessageID \<times> MessageID) set" where
  "parentRel msgs = {(c, p). \<exists>p1 p2. parentsOf msgs c = Some (p1, p2) \<and> (p = p1 \<or> p = p2)}"

text \<open>
  The bit of a message: the number of distinct IDs ingested before it. The selector does
  not store it; it is \<^verbatim>\<open>idx\<close> at the ingest of the message.
\<close>

definition bitIndex :: "MessageMetadata list \<Rightarrow> MessageID \<Rightarrow> nat" where
  "bitIndex msgs k = card (mids (takeWhile (\<lambda>m. GetMessageID m \<noteq> k) msgs))"

subsection \<open>Facts about the sequence\<close>

lemma mids_simps [simp]:
  "mids [] = {}" "mids (m # ms) = insert (GetMessageID m) (mids ms)"
  "mids (ms @ ms') = mids ms \<union> mids ms'"
  by (auto simp: mids_def)

lemma finite_mids [simp]: "finite (mids msgs)"
  by (simp add: mids_def)

lemma solidOrderFrom_butlast: "solidOrderFrom seen (ms @ [x]) \<Longrightarrow> solidOrderFrom seen ms"
  by (induction ms arbitrary: seen) auto

lemma solidOrderFrom_last:
  "solidOrderFrom seen (ms @ [x]) \<Longrightarrow> p = GetParent1MessageID x \<or> p = GetParent2MessageID x \<Longrightarrow>
   p \<in> seen \<union> mids ms \<or> p \<noteq> GetMessageID x"
  by (induction ms arbitrary: seen) auto

lemma solidOrderFrom_not_parent:
  "solidOrderFrom seen (ms @ [x]) \<Longrightarrow> GetMessageID x \<notin> seen \<union> mids ms \<Longrightarrow> m \<in> set ms \<Longrightarrow>
   GetParent1MessageID m \<noteq> GetMessageID x \<and> GetParent2MessageID m \<noteq> GetMessageID x"
proof (induction ms arbitrary: seen)
  case Nil
  then show ?case by simp
next
  case (Cons a ms)
  show ?case
  proof (cases "m = a")
    case True
    with Cons.prems show ?thesis by auto
  next
    case False
    with Cons.prems have "m \<in> set ms" by simp
    moreover from Cons.prems have "solidOrderFrom (insert (GetMessageID a) seen) (ms @ [x])" by simp
    moreover from Cons.prems have "GetMessageID x \<notin> insert (GetMessageID a) seen \<union> mids ms" by auto
    ultimately show ?thesis using Cons.IH by blast
  qed
qed

lemma solidOrder_butlast: "solidOrder (ms @ [x]) \<Longrightarrow> solidOrder ms"
  unfolding solidOrder_def by (rule solidOrderFrom_butlast)

lemma parentsOf_dom: "dom (parentsOf msgs) = mids msgs"
  by (auto simp: parentsOf_def mids_def dom_map_of_conv_image_fst image_image)

lemma parentsOf_Some:
  "parentsOf msgs c = Some (p1, p2) \<Longrightarrow>
   \<exists>m \<in> set msgs. GetMessageID m = c \<and> GetParent1MessageID m = p1 \<and> GetParent2MessageID m = p2"
  by (auto simp: parentsOf_def dest!: map_of_SomeD)

lemma parentsOf_snoc:
  "parentsOf (ms @ [x]) c =
     (if c \<in> mids ms then parentsOf ms c
      else if c = GetMessageID x then Some (GetParent1MessageID x, GetParent2MessageID x)
      else None)"
proof (cases "c \<in> mids ms")
  case True
  then obtain v where "parentsOf ms c = Some v" using parentsOf_dom [of ms] by blast
  with True show ?thesis by (simp add: parentsOf_def map_add_Some_iff)
next
  case False
  then have "parentsOf ms c = None" using parentsOf_dom [of ms] by blast
  with False show ?thesis by (simp add: parentsOf_def map_add_def)
qed

lemma parentRel_source: "(c, p) \<in> parentRel msgs \<Longrightarrow> c \<in> mids msgs"
  using parentsOf_dom [of msgs] by (auto simp: parentRel_def)

lemma parentRel_dup: "GetMessageID x \<in> mids ms \<Longrightarrow> parentRel (ms @ [x]) = parentRel ms"
proof -
  assume dup: "GetMessageID x \<in> mids ms"
  have "parentsOf (ms @ [x]) c = parentsOf ms c" for c
  proof (cases "c \<in> mids ms")
    case True
    then show ?thesis by (simp add: parentsOf_snoc)
  next
    case False
    with dup have "c \<noteq> GetMessageID x" by auto
    moreover from False have "parentsOf ms c = None" using parentsOf_dom [of ms] by blast
    ultimately show ?thesis using False by (simp add: parentsOf_snoc)
  qed
  then show ?thesis by (simp add: parentRel_def)
qed

lemma parentRel_new:
  "GetMessageID x \<notin> mids ms \<Longrightarrow>
   parentRel (ms @ [x]) = parentRel ms
     \<union> {(GetMessageID x, GetParent1MessageID x), (GetMessageID x, GetParent2MessageID x)}"
  using parentsOf_dom [of ms]
  by (auto simp: parentRel_def parentsOf_snoc split: if_splits)

text \<open>In solidification order a new message is nobody's parent yet, and not its own.\<close>

lemma solidOrder_new_target:
  assumes "solidOrder (ms @ [x])" and "GetMessageID x \<notin> mids ms"
  shows "(c, GetMessageID x) \<notin> parentRel (ms @ [x])"
proof
  assume "(c, GetMessageID x) \<in> parentRel (ms @ [x])"
  with assms(2) consider "(c, GetMessageID x) \<in> parentRel ms"
    | "GetMessageID x = GetParent1MessageID x \<or> GetMessageID x = GetParent2MessageID x"
    by (auto simp: parentRel_new)
  then show False
  proof cases
    case 1
    then obtain m where "m \<in> set ms"
      and "GetParent1MessageID m = GetMessageID x \<or> GetParent2MessageID m = GetMessageID x"
      by (auto simp: parentRel_def dest!: parentsOf_Some)
    with solidOrderFrom_not_parent [of "{}" ms x m] assms show False
      by (auto simp: solidOrder_def)
  next
    case 2
    with solidOrderFrom_last [of "{}" ms x "GetMessageID x"] assms show False
      by (auto simp: solidOrder_def)
  qed
qed

lemma bitIndex_old: "k \<in> mids ms \<Longrightarrow> bitIndex (ms @ [x]) k = bitIndex ms k"
proof -
  assume "k \<in> mids ms"
  then obtain m where "m \<in> set ms" and "\<not> GetMessageID m \<noteq> k" by (auto simp: mids_def)
  then have "takeWhile (\<lambda>m. GetMessageID m \<noteq> k) (ms @ [x]) = takeWhile (\<lambda>m. GetMessageID m \<noteq> k) ms"
    by (rule takeWhile_append1)
  then show ?thesis by (simp add: bitIndex_def)
qed

lemma bitIndex_new: "GetMessageID x \<notin> mids ms \<Longrightarrow> bitIndex (ms @ [x]) (GetMessageID x) = card (mids ms)"
proof -
  assume new: "GetMessageID x \<notin> mids ms"
  have "GetMessageID m \<noteq> GetMessageID x" if "m \<in> set ms" for m
    using that new unfolding mids_def by (metis imageI)
  then have "takeWhile (\<lambda>m. GetMessageID m \<noteq> GetMessageID x) (ms @ [x])
      = ms @ takeWhile (\<lambda>m. GetMessageID m \<noteq> GetMessageID x) [x]"
    by (rule takeWhile_append2)
  then show ?thesis by (simp add: bitIndex_def)
qed

lemma bitIndex_less: "k \<in> mids ms \<Longrightarrow> bitIndex ms k < card (mids ms)"
proof -
  assume k: "k \<in> mids ms"
  let ?pre = "takeWhile (\<lambda>m. GetMessageID m \<noteq> k) ms"
  have "mids ?pre \<subseteq> mids ms" by (auto simp: mids_def dest: set_takeWhileD)
  moreover have "k \<notin> mids ?pre" by (auto simp: mids_def dest: set_takeWhileD)
  ultimately have "mids ?pre \<subset> mids ms" using k by blast
  then show ?thesis unfolding bitIndex_def by (simp add: psubset_card_mono)
qed

lemma bitIndex_inj: "inj_on (bitIndex ms) (mids ms)"
proof (induction ms rule: rev_induct)
  case Nil
  show ?case by simp
next
  case (snoc x ms)
  show ?case
  proof (cases "GetMessageID x \<in> mids ms")
    case True
    then have "mids (ms @ [x]) = mids ms" by auto
    moreover have "inj_on (bitIndex (ms @ [x])) (mids ms)"
      using snoc by (simp add: inj_on_def bitIndex_old)
    ultimately show ?thesis by simp
  next
    case False
    have "bitIndex (ms @ [x]) a = bitIndex (ms @ [x]) b \<Longrightarrow> a = b"
      if "a \<in> mids (ms @ [x])" "b \<in> mids (ms @ [x])" for a b
      using that False snoc bitIndex_less [of a ms] bitIndex_less [of b ms]
      by (cases "a = GetMessageID x"; cases "b = GetMessageID x")
         (auto simp: bitIndex_old bitIndex_new inj_on_def)
    then show ?thesis by (auto simp: inj_on_def)
  qed
qed

subsection \<open>Ancestors\<close>

text \<open>The ancestors of a message that are tracked after the ingests \<open>msgs\<close>.\<close>

definition trackedAncestors :: "MessageMetadata list \<Rightarrow> MessageID \<Rightarrow> MessageID set" where
  "trackedAncestors msgs k = {a \<in> mids msgs. (k, a) \<in> (parentRel msgs)\<^sup>+}"

lemma trancl_new_source:
  assumes target: "\<And>c. (c, x) \<notin> R \<union> E" and source: "\<And>c p. (c, p) \<in> E \<Longrightarrow> c = x"
    and "(k, a) \<in> (R \<union> E)\<^sup>+" and "k \<noteq> x"
  shows "(k, a) \<in> R\<^sup>+"
  using assms(3)
proof (induction rule: trancl_induct)
  case (base y)
  with source \<open>k \<noteq> x\<close> show ?case by blast
next
  case (step y z)
  from step.hyps(1) obtain c where "(c, y) \<in> R \<union> E" by (blast dest: tranclD2)
  with target have "y \<noteq> x" by blast
  with step.hyps(2) source have "(y, z) \<in> R" by blast
  with step.IH show ?case by (rule trancl_into_trancl)
qed

lemma trancl_not_source: "(k, a) \<in> R\<^sup>+ \<Longrightarrow> \<exists>p. (k, p) \<in> R"
  by (blast dest: tranclD)

lemma trackedAncestors_dup:
  "GetMessageID x \<in> mids ms \<Longrightarrow> trackedAncestors (ms @ [x]) k = trackedAncestors ms k"
  by (auto simp: trackedAncestors_def parentRel_dup)

lemma trackedAncestors_old:
  assumes so: "solidOrder (ms @ [x])" and new: "GetMessageID x \<notin> mids ms" and k: "k \<noteq> GetMessageID x"
  shows "trackedAncestors (ms @ [x]) k = trackedAncestors ms k"
proof -
  let ?E = "{(GetMessageID x, GetParent1MessageID x), (GetMessageID x, GetParent2MessageID x)}"
  have rel: "parentRel (ms @ [x]) = parentRel ms \<union> ?E" using new by (rule parentRel_new)
  have target: "(c, GetMessageID x) \<notin> parentRel ms \<union> ?E" for c
    using solidOrder_new_target [OF so new, of c] rel by simp
  have iff: "(k, a) \<in> (parentRel ms \<union> ?E)\<^sup>+ \<longleftrightarrow> (k, a) \<in> (parentRel ms)\<^sup>+" for a
  proof
    assume path: "(k, a) \<in> (parentRel ms \<union> ?E)\<^sup>+"
    show "(k, a) \<in> (parentRel ms)\<^sup>+"
      by (rule trancl_new_source [where x = "GetMessageID x" and E = ?E])
         (use target path k in auto)
  next
    assume "(k, a) \<in> (parentRel ms)\<^sup>+"
    then show "(k, a) \<in> (parentRel ms \<union> ?E)\<^sup>+" by (rule trancl_mono) (rule Un_upper1)
  qed
  have "(k, GetMessageID x) \<notin> (parentRel ms \<union> ?E)\<^sup>+"
  proof
    assume "(k, GetMessageID x) \<in> (parentRel ms \<union> ?E)\<^sup>+"
    then obtain c where "(c, GetMessageID x) \<in> parentRel ms \<union> ?E" by (blast dest: tranclD2)
    with target show False by blast
  qed
  with iff show ?thesis unfolding trackedAncestors_def rel by auto
qed

lemma trackedAncestors_new:
  assumes so: "solidOrder (ms @ [x])" and new: "GetMessageID x \<notin> mids ms"
  shows "trackedAncestors (ms @ [x]) (GetMessageID x)
     = (\<Union>p \<in> {GetParent1MessageID x, GetParent2MessageID x} \<inter> mids ms.
          insert p (trackedAncestors ms p))"
proof -
  let ?x = "GetMessageID x"
  let ?P = "{GetParent1MessageID x, GetParent2MessageID x}"
  let ?E = "{(?x, GetParent1MessageID x), (?x, GetParent2MessageID x)}"
  let ?R = "parentRel ms"
  have rel: "parentRel (ms @ [x]) = ?R \<union> ?E" using new by (rule parentRel_new)
  have target: "(c, ?x) \<notin> ?R \<union> ?E" for c
    using solidOrder_new_target [OF so new, of c] rel by simp
  then have px: "?x \<notin> ?P" by auto
  have nosrc: "(?x, p) \<notin> ?R" for p using parentRel_source [of ?x p ms] new by blast
  show ?thesis
  proof (intro set_eqI iffI)
    fix a assume "a \<in> trackedAncestors (ms @ [x]) ?x"
    then have a: "a \<in> mids (ms @ [x])" and path: "(?x, a) \<in> (?R \<union> ?E)\<^sup>+"
      by (simp_all add: trackedAncestors_def rel)
    from path obtain p where first: "(?x, p) \<in> ?R \<union> ?E" and rest: "(p, a) \<in> (?R \<union> ?E)\<^sup>*"
      by (blast dest: tranclD)
    from first nosrc have p: "p \<in> ?P" by auto
    with px have pne: "p \<noteq> ?x" by auto
    from path target have ane: "a \<noteq> ?x" by (blast dest: tranclD2)
    with a have am: "a \<in> mids ms" by auto
    from rest consider "a = p" | "(p, a) \<in> (?R \<union> ?E)\<^sup>+" by (auto simp: rtrancl_eq_or_trancl)
    then show "a \<in> (\<Union>p \<in> ?P \<inter> mids ms. insert p (trackedAncestors ms p))"
    proof cases
      case 1
      with p am show ?thesis by blast
    next
      case 2
      have r: "(p, a) \<in> ?R\<^sup>+"
        by (rule trancl_new_source [where x = ?x and E = ?E])
           (use target 2 pne in auto)
      then obtain q where "(p, q) \<in> ?R" by (blast dest: tranclD)
      then have "p \<in> mids ms" by (rule parentRel_source)
      with p r am show ?thesis by (auto simp: trackedAncestors_def)
    qed
  next
    fix a assume "a \<in> (\<Union>p \<in> ?P \<inter> mids ms. insert p (trackedAncestors ms p))"
    then obtain p where p: "p \<in> ?P" "p \<in> mids ms" and a: "a = p \<or> a \<in> trackedAncestors ms p"
      by auto
    from p have first: "(?x, p) \<in> (?R \<union> ?E)\<^sup>+" by auto
    from a show "a \<in> trackedAncestors (ms @ [x]) ?x"
    proof
      assume "a = p"
      with first p show ?thesis by (simp add: trackedAncestors_def rel)
    next
      assume "a \<in> trackedAncestors ms p"
      then have am: "a \<in> mids ms" and pa: "(p, a) \<in> ?R\<^sup>+" by (simp_all add: trackedAncestors_def)
      from pa have "(p, a) \<in> (?R \<union> ?E)\<^sup>+" by (rule trancl_mono) (rule Un_upper1)
      with first have "(?x, a) \<in> (?R \<union> ?E)\<^sup>+" by (rule trancl_trans)
      with am show ?thesis by (simp add: trackedAncestors_def rel)
    qed
  qed
qed

lemma trackedAncestors_sub: "trackedAncestors msgs k \<subseteq> mids msgs"
  by (auto simp: trackedAncestors_def)

text \<open>In solidification order a tracked parent has a smaller bit than its child.\<close>

lemma parent_bitIndex:
  "solidOrder msgs \<Longrightarrow> (c, p) \<in> parentRel msgs \<Longrightarrow> p \<in> mids msgs \<Longrightarrow>
   bitIndex msgs p < bitIndex msgs c"
proof (induction msgs rule: rev_induct)
  case Nil
  then show ?case by simp
next
  case (snoc x ms)
  from snoc.prems(1) have so: "solidOrder ms" by (rule solidOrder_butlast)
  show ?case
  proof (cases "GetMessageID x \<in> mids ms")
    case True
    with snoc.prems have "(c, p) \<in> parentRel ms" and "p \<in> mids ms"
      by (auto simp: parentRel_dup)
    moreover from this have "c \<in> mids ms" by (auto dest: parentRel_source)
    ultimately show ?thesis using snoc.IH so by (simp add: bitIndex_old)
  next
    case False
    from solidOrder_new_target [OF snoc.prems(1) False, of c] snoc.prems(2)
    have pne: "p \<noteq> GetMessageID x" by auto
    with snoc.prems(3) have pm: "p \<in> mids ms" by auto
    show ?thesis
    proof (cases "c = GetMessageID x")
      case True
      with False pm bitIndex_less [OF pm] show ?thesis by (simp add: bitIndex_old bitIndex_new)
    next
      case cne: False
      with snoc.prems(2) False have r: "(c, p) \<in> parentRel ms" by (auto simp: parentRel_new)
      then have "c \<in> mids ms" by (rule parentRel_source)
      with r pm so snoc.IH show ?thesis by (simp add: bitIndex_old)
    qed
  qed
qed

lemma ancestor_bitIndex:
  assumes "solidOrder msgs" and "a \<in> trackedAncestors msgs k"
  shows "bitIndex msgs a < bitIndex msgs k"
proof -
  from assms(2) have "(k, a) \<in> (parentRel msgs)\<^sup>+" and am: "a \<in> mids msgs"
    by (simp_all add: trackedAncestors_def)
  then have "a \<in> mids msgs \<longrightarrow> bitIndex msgs a < bitIndex msgs k"
  proof (induction rule: trancl_induct)
    case (base y)
    with assms(1) show ?case by (auto dest: parent_bitIndex)
  next
    case (step y z)
    from step.hyps(2) have "y \<in> mids msgs" by (rule parentRel_source)
    with step.IH have "bitIndex msgs y < bitIndex msgs k" by simp
    moreover from assms(1) step.hyps(2) have "z \<in> mids msgs \<longrightarrow> bitIndex msgs z < bitIndex msgs y"
      by (auto dest: parent_bitIndex)
    ultimately show ?case by auto
  qed
  with am show ?thesis by simp
qed

lemma not_own_ancestor: "solidOrder msgs \<Longrightarrow> k \<notin> trackedAncestors msgs k"
  by (auto dest: ancestor_bitIndex)

section \<open>The selector after a sequence of ingests\<close>

lemma ingestAll_snoc: "ingestAll s (ms @ [m]) = snd (OnNewSolidMessage (ingestAll s ms) m)"
  by (induction ms arbitrary: s) simp_all

text \<open>The IDs of the tip list, front to back.\<close>

definition tipIDs :: "HeaviestSelector \<Rightarrow> MessageID list" where
  "tipIDs s = map (\<lambda>a. messageID (objs s a)) (tips s)"

text \<open>
  What every sequence of ingests keeps: the tip list has no address twice and holds
  tracked records only; a tracked record lies below \<open>nextAddr\<close>, carries the ID it is
  filed under, and its \<open>tip\<close> field is set exactly when it is in the tip list.
\<close>

definition wfSel :: "HeaviestSelector \<Rightarrow> bool" where
  "wfSel s \<longleftrightarrow>
     distinct (tips s) \<and> set (tips s) \<subseteq> ran (trackedMessages s)
     \<and> (\<forall>k a. trackedMessages s k = Some a \<longrightarrow>
           a < nextAddr s \<and> messageID (objs s a) = k \<and> (tip (objs s a) \<longleftrightarrow> a \<in> set (tips s)))"

lemma wfSel_reset: "wfSel (reset s)"
  by (simp add: wfSel_def reset_def)

lemma removeTip_fields:
  "trackedMessages (removeTip s it) = trackedMessages s"
  "nextAddr (removeTip s it) = nextAddr s"
  "messageID (objs (removeTip s it) a) = messageID (objs s a)"
  "refs (objs (removeTip s it) a) = refs (objs s a)"
  "tip (objs (removeTip s it) a) = (tip (objs s a) \<and> it \<noteq> Some a)"
  by (auto simp: removeTip_def split: option.splits)

lemma removeTip_tips:
  assumes "distinct (tips s)" and "\<And>a. it = Some a \<Longrightarrow> tip (objs s a) \<longleftrightarrow> a \<in> set (tips s)"
  shows "tips (removeTip s it) = filter (\<lambda>b. Some b \<noteq> it) (tips s)"
proof (cases it)
  case None
  then show ?thesis by (simp add: removeTip_def)
next
  case (Some a)
  show ?thesis
  proof (cases "tip (objs s a)")
    case True
    with Some assms(1) show ?thesis
      by (simp add: removeTip_def distinct_remove1_removeAll removeAll_filter_not_eq eq_commute)
  next
    case False
    with assms(2) Some have "a \<notin> set (tips s)" by simp
    then have "filter (\<lambda>b. b \<noteq> a) (tips s) = tips s" by (auto simp: filter_id_conv)
    with False Some show ?thesis by (simp add: removeTip_def)
  qed
qed

text \<open>The effect of ingesting a message that is not tracked yet.\<close>

lemma OnNewSolidMessage_new:
  assumes wf: "wfSel s" and new: "trackedMessages s (GetMessageID m) = None"
  defines "s' \<equiv> snd (OnNewSolidMessage s m)"
  defines "it \<equiv> nextAddr s"
  defines "q1 \<equiv> trackedMessages s (GetParent1MessageID m)"
  defines "q2 \<equiv> trackedMessages s (GetParent2MessageID m)"
  shows "trackedMessages s' = (trackedMessages s)(GetMessageID m \<mapsto> it)"
    and "nextAddr s' = Suc it"
    and "tips s' = filter (\<lambda>b. Some b \<noteq> q1 \<and> Some b \<noteq> q2) (tips s) @ [it]"
    and "messageID (objs s' it) = GetMessageID m"
    and "tip (objs s' it)"
    and "refs (objs s' it) = {|card (dom (trackedMessages s))|}
           |\<union>| (case q1 of None \<Rightarrow> {||} | Some p \<Rightarrow> refs (objs s p))
           |\<union>| (case q2 of None \<Rightarrow> {||} | Some p \<Rightarrow> refs (objs s p))"
    and "\<And>a. a \<noteq> it \<Longrightarrow> messageID (objs s' a) = messageID (objs s a)
           \<and> refs (objs s' a) = refs (objs s a)
           \<and> (tip (objs s' a) \<longleftrightarrow> tip (objs s a) \<and> Some a \<noteq> q1 \<and> Some a \<noteq> q2)"
proof -
  define r2 where "r2 = {|card (dom (trackedMessages s))|}
           |\<union>| (case q1 of None \<Rightarrow> {||} | Some p \<Rightarrow> refs (objs s p))
           |\<union>| (case q2 of None \<Rightarrow> {||} | Some p \<Rightarrow> refs (objs s p))"
  define s1 where "s1 = s\<lparr>objs := (objs s)(it := \<lparr>messageID = GetMessageID m, tip = False, refs = r2\<rparr>),
                   nextAddr := Suc it,
                   trackedMessages := (trackedMessages s)(GetMessageID m \<mapsto> it)\<rparr>"
  define s2 where "s2 = removeTip s1 q1"
  define s3 where "s3 = removeTip s2 q2"
  have s': "s' = s3\<lparr>tips := tips s3 @ [it], objs := (objs s3)(it := (objs s3 it)\<lparr>tip := True\<rparr>)\<rparr>"
    using new
    by (simp add: s'_def OnNewSolidMessage_def Let_def s3_def s2_def s1_def r2_def q1_def q2_def
        it_def funion_assoc split: option.splits)
  have below: "a < it" if "q1 = Some a \<or> q2 = Some a" for a
    using that wf by (auto simp: wfSel_def q1_def q2_def it_def)
  have flag: "tip (objs s a) \<longleftrightarrow> a \<in> set (tips s)" if "q1 = Some a \<or> q2 = Some a" for a
    using that wf by (auto simp: wfSel_def q1_def q2_def)
  from wf have dis: "distinct (tips s)" by (simp add: wfSel_def)
  have t1: "tips s1 = tips s" by (simp add: s1_def)
  have t2: "tips s2 = filter (\<lambda>b. Some b \<noteq> q1) (tips s)"
  proof -
    have "tips s2 = filter (\<lambda>b. Some b \<noteq> q1) (tips s1)"
      unfolding s2_def
    proof (rule removeTip_tips)
      show "distinct (tips s1)" using dis t1 by simp
      show "tip (objs s1 a) \<longleftrightarrow> a \<in> set (tips s1)" if "q1 = Some a" for a
        using that below [of a] flag [of a] by (simp add: s1_def)
    qed
    with t1 show ?thesis by simp
  qed
  have t3: "tips s3 = filter (\<lambda>b. Some b \<noteq> q1 \<and> Some b \<noteq> q2) (tips s)"
  proof -
    have "tips s3 = filter (\<lambda>b. Some b \<noteq> q2) (tips s2)"
      unfolding s3_def
    proof (rule removeTip_tips)
      show "distinct (tips s2)" using dis t2 by simp
      show "tip (objs s2 a) \<longleftrightarrow> a \<in> set (tips s2)" if "q2 = Some a" for a
      proof -
        have "tip (objs s2 a) \<longleftrightarrow> tip (objs s a) \<and> q1 \<noteq> Some a"
          using below [of a] that by (simp add: s2_def removeTip_fields s1_def)
        with flag [of a] that show ?thesis by (auto simp: t2)
      qed
    qed
    with t2 show ?thesis by (simp add: conj_commute)
  qed
  show "trackedMessages s' = (trackedMessages s)(GetMessageID m \<mapsto> it)"
    by (simp add: s' s3_def s2_def removeTip_fields s1_def)
  show "nextAddr s' = Suc it"
    by (simp add: s' s3_def s2_def removeTip_fields s1_def)
  show "tips s' = filter (\<lambda>b. Some b \<noteq> q1 \<and> Some b \<noteq> q2) (tips s) @ [it]"
    by (simp add: s' t3)
  show "messageID (objs s' it) = GetMessageID m"
    by (simp add: s' s3_def s2_def removeTip_fields s1_def)
  show "tip (objs s' it)" by (simp add: s')
  show "refs (objs s' it) = {|card (dom (trackedMessages s))|}
           |\<union>| (case q1 of None \<Rightarrow> {||} | Some p \<Rightarrow> refs (objs s p))
           |\<union>| (case q2 of None \<Rightarrow> {||} | Some p \<Rightarrow> refs (objs s p))"
    by (simp add: s' s3_def s2_def removeTip_fields s1_def r2_def)
  show "messageID (objs s' a) = messageID (objs s a)
           \<and> refs (objs s' a) = refs (objs s a)
           \<and> (tip (objs s' a) \<longleftrightarrow> tip (objs s a) \<and> Some a \<noteq> q1 \<and> Some a \<noteq> q2)"
    if "a \<noteq> it" for a
    using that by (auto simp: s' s3_def s2_def removeTip_fields s1_def)
qed

lemma OnNewSolidMessage_wfSel:
  assumes wf: "wfSel s"
  shows "wfSel (snd (OnNewSolidMessage s m))"
proof (cases "trackedMessages s (GetMessageID m)")
  case (Some a)
  with wf show ?thesis by (simp add: OnNewSolidMessage_duplicate)
next
  case None
  let ?s' = "snd (OnNewSolidMessage s m)"
  let ?it = "nextAddr s"
  let ?q1 = "trackedMessages s (GetParent1MessageID m)"
  let ?q2 = "trackedMessages s (GetParent2MessageID m)"
  note eff = OnNewSolidMessage_new [OF wf None]
  from wf have dis: "distinct (tips s)" and sub: "set (tips s) \<subseteq> ran (trackedMessages s)"
    and tr: "\<And>k a. trackedMessages s k = Some a \<Longrightarrow>
           a < ?it \<and> messageID (objs s a) = k \<and> (tip (objs s a) \<longleftrightarrow> a \<in> set (tips s))"
    by (auto simp: wfSel_def)
  have lt: "b < ?it" if "b \<in> set (tips s)" for b
    using that sub tr by (auto simp: ran_def)
  have ran': "ran (trackedMessages ?s') = insert ?it (ran (trackedMessages s))"
    using None by (simp add: eff(1))
  have "distinct (tips ?s')" using dis lt by (auto simp: eff(3))
  moreover have "set (tips ?s') \<subseteq> ran (trackedMessages ?s')"
    using sub by (auto simp: eff(3) ran')
  moreover have "a < nextAddr ?s' \<and> messageID (objs ?s' a) = k
      \<and> (tip (objs ?s' a) \<longleftrightarrow> a \<in> set (tips ?s'))"
    if "trackedMessages ?s' k = Some a" for k a
  proof (cases "k = GetMessageID m")
    case True
    with that have "a = ?it" by (simp add: eff(1))
    with True show ?thesis by (simp add: eff)
  next
    case False
    with that have old: "trackedMessages s k = Some a" by (simp add: eff(1))
    from tr [OF old] have "a \<noteq> ?it" by simp
    from eff(7) [OF this] tr [OF old] show ?thesis by (auto simp: eff(2,3))
  qed
  ultimately show ?thesis unfolding wfSel_def by blast
qed

lemma ingestAll_wfSel: "wfSel s \<Longrightarrow> wfSel (ingestAll s msgs)"
  by (induction msgs arbitrary: s) (simp_all add: OnNewSolidMessage_wfSel)

lemma OnNewSolidMessage_dom:
  "wfSel s \<Longrightarrow> dom (trackedMessages (snd (OnNewSolidMessage s m)))
     = insert (GetMessageID m) (dom (trackedMessages s))"
proof (cases "trackedMessages s (GetMessageID m)")
  case (Some a)
  then show ?thesis by (auto simp: OnNewSolidMessage_duplicate)
next
  case None
  assume "wfSel s"
  from OnNewSolidMessage_new(1) [OF this None] show ?thesis by simp
qed

lemma ingestAll_dom:
  "wfSel s \<Longrightarrow> dom (trackedMessages (ingestAll s msgs)) = dom (trackedMessages s) \<union> mids msgs"
  by (induction msgs arbitrary: s) (simp_all add: OnNewSolidMessage_dom OnNewSolidMessage_wfSel)

lemma ingestAll_reset_dom: "dom (trackedMessages (ingestAll (reset s0) msgs)) = mids msgs"
  using ingestAll_dom [OF wfSel_reset, of s0 msgs] by (simp add: reset_def)

text \<open>The tip list after the ingest of a message that is not tracked yet.\<close>

lemma tipIDs_step:
  assumes wf: "wfSel s" and new: "trackedMessages s (GetMessageID m) = None"
  shows "tipIDs (snd (OnNewSolidMessage s m))
     = filter (\<lambda>k. k \<noteq> GetParent1MessageID m \<and> k \<noteq> GetParent2MessageID m) (tipIDs s)
       @ [GetMessageID m]"
proof -
  let ?s' = "snd (OnNewSolidMessage s m)"
  note eff = OnNewSolidMessage_new [OF wf new]
  from wf have sub: "set (tips s) \<subseteq> ran (trackedMessages s)"
    and tr: "\<And>k a. trackedMessages s k = Some a \<Longrightarrow> a < nextAddr s \<and> messageID (objs s a) = k"
    by (auto simp: wfSel_def)
  have key: "trackedMessages s (messageID (objs s b)) = Some b \<and> b \<noteq> nextAddr s"
    if "b \<in> set (tips s)" for b
    using that sub tr by (fastforce simp: ran_def)
  have iff: "Some b \<noteq> trackedMessages s p \<longleftrightarrow> messageID (objs s b) \<noteq> p"
    if "b \<in> set (tips s)" for b p
    using key [OF that] tr [of p b] by auto
  have "filter (\<lambda>b. Some b \<noteq> trackedMessages s (GetParent1MessageID m)
                  \<and> Some b \<noteq> trackedMessages s (GetParent2MessageID m)) (tips s)
      = filter (\<lambda>b. messageID (objs s b) \<noteq> GetParent1MessageID m
                  \<and> messageID (objs s b) \<noteq> GetParent2MessageID m) (tips s)"
    by (rule filter_cong) (simp_all add: iff)
  moreover have "messageID (objs ?s' b) = messageID (objs s b)" if "b \<in> set (tips s)" for b
    using key [OF that] eff(7) [of b] by simp
  ultimately show ?thesis
    by (simp add: tipIDs_def eff(3,4) filter_map comp_def)
qed

lemma tipIDs_distinct:
  assumes "wfSel s"
  shows "distinct (tipIDs s)"
proof -
  from assms have dis: "distinct (tips s)" and sub: "set (tips s) \<subseteq> ran (trackedMessages s)"
    and tr: "\<And>k a. trackedMessages s k = Some a \<Longrightarrow> messageID (objs s a) = k"
    by (auto simp: wfSel_def)
  have "a = b" if "a \<in> set (tips s)" "b \<in> set (tips s)"
    and eq: "messageID (objs s a) = messageID (objs s b)" for a b
  proof -
    from that sub obtain ka kb where ka: "trackedMessages s ka = Some a"
      and kb: "trackedMessages s kb = Some b" by (fastforce simp: ran_def)
    with tr [OF ka] tr [OF kb] eq show ?thesis by simp
  qed
  then have "inj_on (\<lambda>a. messageID (objs s a)) (set (tips s))" by (auto simp: inj_on_def)
  with dis show ?thesis by (simp add: tipIDs_def distinct_map)
qed

text \<open>In solidification order the tips are the tracked messages without a tracked child.\<close>

lemma tipIDs_nonparents:
  "solidOrder msgs \<Longrightarrow>
   set (tipIDs (ingestAll (reset s0) msgs))
     = {k \<in> mids msgs. \<forall>c \<in> mids msgs. c \<noteq> k \<longrightarrow> (c, k) \<notin> parentRel msgs}"
proof (induction msgs rule: rev_induct)
  case Nil
  show ?case by (simp add: tipIDs_def reset_def)
next
  case (snoc x ms)
  let ?s = "ingestAll (reset s0) ms"
  let ?x = "GetMessageID x"
  from snoc.prems have so: "solidOrder ms" by (rule solidOrder_butlast)
  have wf: "wfSel ?s" by (simp add: ingestAll_wfSel wfSel_reset)
  have dom: "dom (trackedMessages ?s) = mids ms" by (rule ingestAll_reset_dom)
  have IH: "set (tipIDs ?s) = {k \<in> mids ms. \<forall>c \<in> mids ms. c \<noteq> k \<longrightarrow> (c, k) \<notin> parentRel ms}"
    using so by (rule snoc.IH)
  show ?case
  proof (cases "?x \<in> mids ms")
    case True
    with dom have "trackedMessages ?s ?x \<noteq> None" by blast
    then have "ingestAll (reset s0) (ms @ [x]) = ?s"
      by (simp add: ingestAll_snoc OnNewSolidMessage_duplicate)
    moreover from True have "mids (ms @ [x]) = mids ms" by auto
    ultimately show ?thesis using IH True by (simp add: parentRel_dup)
  next
    case False
    with dom have new: "trackedMessages ?s ?x = None" by blast
    have rel: "parentRel (ms @ [x]) = parentRel ms
        \<union> {(?x, GetParent1MessageID x), (?x, GetParent2MessageID x)}"
      using False by (rule parentRel_new)
    have target: "(c, ?x) \<notin> parentRel (ms @ [x])" for c
      using snoc.prems False by (rule solidOrder_new_target)
    have nosrc: "(?x, p) \<notin> parentRel ms" for p
      using parentRel_source [of ?x p ms] False by blast
    have "set (tipIDs (ingestAll (reset s0) (ms @ [x])))
        = insert ?x {k \<in> set (tipIDs ?s). k \<noteq> GetParent1MessageID x \<and> k \<noteq> GetParent2MessageID x}"
      by (auto simp: ingestAll_snoc tipIDs_step [OF wf new])
    also have "\<dots> = {k \<in> mids (ms @ [x]). \<forall>c \<in> mids (ms @ [x]). c \<noteq> k \<longrightarrow> (c, k) \<notin> parentRel (ms @ [x])}"
      (is "?L = ?R")
    proof (intro set_eqI iffI)
      fix k assume "k \<in> ?L"
      then consider "k = ?x"
        | "k \<in> mids ms" "\<forall>c \<in> mids ms. c \<noteq> k \<longrightarrow> (c, k) \<notin> parentRel ms"
          "k \<noteq> GetParent1MessageID x" "k \<noteq> GetParent2MessageID x"
        using IH by auto
      then show "k \<in> ?R"
      proof cases
        case 1
        with target show ?thesis by auto
      next
        case 2
        with nosrc show ?thesis by (auto simp: rel)
      qed
    next
      fix k assume k: "k \<in> ?R"
      show "k \<in> ?L"
      proof (cases "k = ?x")
        case True
        then show ?thesis by simp
      next
        case False
        with k have "k \<in> mids ms" and all: "\<forall>c \<in> mids (ms @ [x]). c \<noteq> k \<longrightarrow> (c, k) \<notin> parentRel (ms @ [x])"
          by auto
        moreover from all False have "(?x, k) \<notin> parentRel (ms @ [x])" by auto
        ultimately show ?thesis using IH by (auto simp: rel)
      qed
    qed
    finally show ?thesis .
  qed
qed

lemma reset_New: "reset (New a b c d) = New a b c d"
  by (simp add: New_def reset_def)

lemma overlapExample_ingest:
  "overlapExample = ingestAll (reset (New 3 2 1 100)) overlapMsgs"
  by (simp add: overlapExample_def reset_New)

lemma overlapMsgs_solidOrder: "solidOrder overlapMsgs"
  by (simp add: solidOrder_def overlapMsgs_def msg_def)

text \<open>
  Claim C9: after every ingest, the tip list is exactly the tracked messages that are not
  a parent of any other tracked message; an ingest of a new message removes each tracked
  parent from the tip list (a parent that is not tracked is not in the list) and appends
  the new message at the back, the rest keeping its order. The ingests come in
  solidification order, as \<^verbatim>\<open>OnNewSolidMessage\<close> requires. The selector starts empty
  (\<open>reset s0\<close>); \<open>msgs\<close> are the ingests before, \<open>m\<close> is the ingest looked at.
\<close>

theorem tips_after_ingest:
  fixes s0 :: HeaviestSelector and msgs :: "MessageMetadata list" and m :: MessageMetadata
  defines "before \<equiv> ingestAll (reset s0) msgs"
    and "after \<equiv> ingestAll (reset s0) (msgs @ [m])"
  assumes "solidOrder (msgs @ [m])"
  shows "distinct (tipIDs after)
    \<and> set (tipIDs after)
        = {k \<in> dom (trackedMessages after).
             \<forall>c \<in> dom (trackedMessages after). c \<noteq> k \<longrightarrow> (c, k) \<notin> parentRel (msgs @ [m])}
    \<and> tipIDs after
        = (if GetMessageID m \<in> dom (trackedMessages before) then tipIDs before
           else filter (\<lambda>k. k \<noteq> GetParent1MessageID m \<and> k \<noteq> GetParent2MessageID m) (tipIDs before)
                @ [GetMessageID m])"
proof -
  have wf: "wfSel before" "wfSel after"
    by (simp_all add: before_def after_def ingestAll_wfSel wfSel_reset)
  have dom: "dom (trackedMessages after) = mids (msgs @ [m])"
    unfolding after_def by (rule ingestAll_reset_dom)
  have "distinct (tipIDs after)" using wf(2) by (rule tipIDs_distinct)
  moreover have "set (tipIDs after)
        = {k \<in> dom (trackedMessages after).
             \<forall>c \<in> dom (trackedMessages after). c \<noteq> k \<longrightarrow> (c, k) \<notin> parentRel (msgs @ [m])}"
    unfolding dom unfolding after_def using assms(3) by (rule tipIDs_nonparents)
  moreover have "tipIDs after
        = (if GetMessageID m \<in> dom (trackedMessages before) then tipIDs before
           else filter (\<lambda>k. k \<noteq> GetParent1MessageID m \<and> k \<noteq> GetParent2MessageID m) (tipIDs before)
                @ [GetMessageID m])"
  proof (cases "trackedMessages before (GetMessageID m)")
    case None
    with tipIDs_step [OF wf(1) None] show ?thesis
      by (simp add: after_def before_def ingestAll_snoc domIff)
  next
    case (Some a)
    then show ?thesis
      by (auto simp: after_def before_def ingestAll_snoc OnNewSolidMessage_duplicate)
  qed
  ultimately show ?thesis by blast
qed

lemma overlapMsgs_split:
  "overlapMsgs = [msg ''A'' [] [], msg ''B'' ''A'' [], msg ''C'' ''A'' [], msg ''T1'' ''B'' []]
     @ [msg ''T2'' ''C'' []]"
  by (simp add: overlapMsgs_def)

theorem tips_after_ingest_witness:
  "solidOrder overlapMsgs
   \<and> distinct (tipIDs overlapExample)
   \<and> set (tipIDs overlapExample)
       = {k \<in> dom (trackedMessages overlapExample).
            \<forall>c \<in> dom (trackedMessages overlapExample). c \<noteq> k \<longrightarrow> (c, k) \<notin> parentRel overlapMsgs}"
proof -
  have so: "solidOrder ([msg ''A'' [] [], msg ''B'' ''A'' [], msg ''C'' ''A'' [], msg ''T1'' ''B'' []]
     @ [msg ''T2'' ''C'' []])"
    using overlapMsgs_solidOrder by (simp only: overlapMsgs_split)
  have ex: "overlapExample = ingestAll (reset (New 3 2 1 100))
     ([msg ''A'' [] [], msg ''B'' ''A'' [], msg ''C'' ''A'' [], msg ''T1'' ''B'' []]
     @ [msg ''T2'' ''C'' []])"
    by (simp only: overlapExample_ingest overlapMsgs_split)
  from tips_after_ingest [OF so, of "New 3 2 1 100"] so
  show ?thesis unfolding ex overlapMsgs_split by blast
qed

section \<open>The bitsets after a sequence of ingests\<close>

text \<open>
  In solidification order the bitset of a tracked message holds its own bit and the bits
  of its tracked ancestors.
\<close>

lemma refs_bits:
  "solidOrder msgs \<Longrightarrow> trackedMessages (ingestAll (reset s0) msgs) k = Some a \<Longrightarrow>
   fset (refs (objs (ingestAll (reset s0) msgs) a))
     = bitIndex msgs ` insert k (trackedAncestors msgs k)"
proof (induction msgs arbitrary: k a rule: rev_induct)
  case Nil
  then show ?case by (simp add: reset_def)
next
  case (snoc x ms)
  let ?s = "ingestAll (reset s0) ms"
  let ?s' = "snd (OnNewSolidMessage ?s x)"
  let ?x = "GetMessageID x"
  from snoc.prems(1) have so: "solidOrder ms" by (rule solidOrder_butlast)
  have wf: "wfSel ?s" by (simp add: ingestAll_wfSel wfSel_reset)
  have dom: "dom (trackedMessages ?s) = mids ms" by (rule ingestAll_reset_dom)
  have IH: "fset (refs (objs ?s b)) = bitIndex ms ` insert p (trackedAncestors ms p)"
    if "trackedMessages ?s p = Some b" for p b
    using so that by (rule snoc.IH)
  have same: "bitIndex (ms @ [x]) ` insert p (trackedAncestors ms p)
      = bitIndex ms ` insert p (trackedAncestors ms p)" if "p \<in> mids ms" for p
    using that trackedAncestors_sub [of ms p] by (intro image_cong) (auto simp: bitIndex_old)
  from snoc.prems(2) have tr': "trackedMessages ?s' k = Some a" by (simp add: ingestAll_snoc)
  show ?case
  proof (cases "?x \<in> mids ms")
    case True
    with dom have "trackedMessages ?s ?x \<noteq> None" by blast
    then have eq: "?s' = ?s" by (simp add: OnNewSolidMessage_duplicate)
    with tr' have tr: "trackedMessages ?s k = Some a" by simp
    with dom have "k \<in> mids ms" by blast
    with IH [OF tr] True show ?thesis
      by (simp only: ingestAll_snoc eq trackedAncestors_dup same)
  next
    case False
    with dom have new: "trackedMessages ?s ?x = None" by blast
    note eff = OnNewSolidMessage_new [OF wf new]
    show ?thesis
    proof (cases "k = ?x")
      case kne: False
      with tr' have tr: "trackedMessages ?s k = Some a" by (simp add: eff(1))
      with dom have km: "k \<in> mids ms" by blast
      from wf tr have "a \<noteq> nextAddr ?s" by (auto simp: wfSel_def)
      from eff(7) [OF this] have "refs (objs ?s' a) = refs (objs ?s a)" by simp
      moreover have "trackedAncestors (ms @ [x]) k = trackedAncestors ms k"
        using snoc.prems(1) False kne by (rule trackedAncestors_old)
      ultimately show ?thesis using IH [OF tr] same [OF km] by (simp only: ingestAll_snoc)
    next
      case True
      with tr' have a: "a = nextAddr ?s" by (simp add: eff(1))
      define F where "F p = (if p \<in> mids ms then bitIndex ms ` insert p (trackedAncestors ms p) else {})" for p
      have part: "fset (case trackedMessages ?s p of None \<Rightarrow> {||} | Some b \<Rightarrow> refs (objs ?s b)) = F p" for p
      proof (cases "trackedMessages ?s p")
        case None
        with dom have "p \<notin> mids ms" by blast
        with None show ?thesis by (simp add: F_def)
      next
        case (Some b)
        with dom have "p \<in> mids ms" by blast
        with Some IH [OF Some] show ?thesis by (simp add: F_def)
      qed
      have idx: "card (dom (trackedMessages ?s)) = bitIndex (ms @ [x]) ?x"
        using False by (simp add: dom bitIndex_new)
      have lhs: "fset (refs (objs ?s' a))
          = insert (bitIndex (ms @ [x]) ?x) (F (GetParent1MessageID x) \<union> F (GetParent2MessageID x))"
        unfolding a eff(6) by (simp add: part idx)
      have "bitIndex (ms @ [x]) ` (\<Union>p \<in> {GetParent1MessageID x, GetParent2MessageID x} \<inter> mids ms.
              insert p (trackedAncestors ms p))
          = F (GetParent1MessageID x) \<union> F (GetParent2MessageID x)"
      proof -
        have "bitIndex (ms @ [x]) ` (\<Union>p \<in> {GetParent1MessageID x, GetParent2MessageID x} \<inter> mids ms.
              insert p (trackedAncestors ms p))
            = (\<Union>p \<in> {GetParent1MessageID x, GetParent2MessageID x} \<inter> mids ms.
                bitIndex (ms @ [x]) ` insert p (trackedAncestors ms p))"
          by (rule image_UN)
        also have "\<dots> = (\<Union>p \<in> {GetParent1MessageID x, GetParent2MessageID x} \<inter> mids ms. F p)"
        proof (rule SUP_cong [OF refl])
          fix p assume "p \<in> {GetParent1MessageID x, GetParent2MessageID x} \<inter> mids ms"
          then have "p \<in> mids ms" by simp
          from same [OF this] this
          show "bitIndex (ms @ [x]) ` insert p (trackedAncestors ms p) = F p"
            unfolding F_def by (simp only: if_True)
        qed
        also have "\<dots> = F (GetParent1MessageID x) \<union> F (GetParent2MessageID x)"
          by (auto simp: F_def)
        finally show ?thesis .
      qed
      with trackedAncestors_new [OF snoc.prems(1) False]
      have "bitIndex (ms @ [x]) ` insert ?x (trackedAncestors (ms @ [x]) ?x)
          = insert (bitIndex (ms @ [x]) ?x) (F (GetParent1MessageID x) \<union> F (GetParent2MessageID x))"
        by simp
      with lhs True show ?thesis by (simp only: ingestAll_snoc)
    qed
  qed
qed

text \<open>
  Claim C3: after every sequence of ingest calls made in solidification order, with no
  selection in between, every tracked message \<open>m\<close> has \<open>m.refs.Count()\<close> equal to 1 plus the
  number of ancestors of \<open>m\<close> that are tracked. The selector starts empty (\<open>reset s0\<close>).
\<close>

theorem refs_count:
  fixes s0 :: HeaviestSelector and msgs :: "MessageMetadata list"
  defines "s \<equiv> ingestAll (reset s0) msgs"
  assumes "solidOrder msgs" and "trackedMessages s k = Some a"
  shows "fcard (refs (objs s a))
     = 1 + card {b \<in> dom (trackedMessages s). (k, b) \<in> (parentRel msgs)\<^sup>+}"
proof -
  have dom: "dom (trackedMessages s) = mids msgs" unfolding s_def by (rule ingestAll_reset_dom)
  with assms(3) have k: "k \<in> mids msgs" by blast
  have anc: "{b \<in> dom (trackedMessages s). (k, b) \<in> (parentRel msgs)\<^sup>+} = trackedAncestors msgs k"
    by (simp add: dom trackedAncestors_def)
  have fin: "finite (trackedAncestors msgs k)"
    using trackedAncestors_sub [of msgs k] by (rule finite_subset) simp
  have notin: "k \<notin> trackedAncestors msgs k" using assms(2) by (rule not_own_ancestor)
  have "insert k (trackedAncestors msgs k) \<subseteq> mids msgs"
    using k trackedAncestors_sub [of msgs k] by simp
  with bitIndex_inj have "inj_on (bitIndex msgs) (insert k (trackedAncestors msgs k))"
    by (rule inj_on_subset)
  then have "card (bitIndex msgs ` insert k (trackedAncestors msgs k))
      = card (insert k (trackedAncestors msgs k))"
    by (rule card_image)
  moreover have "fset (refs (objs s a)) = bitIndex msgs ` insert k (trackedAncestors msgs k)"
    using assms(2,3) unfolding s_def by (rule refs_bits)
  ultimately have "fcard (refs (objs s a)) = card (insert k (trackedAncestors msgs k))"
    by (simp add: fcard.rep_eq)
  with fin notin show ?thesis by (simp add: anc)
qed

lemma overlapExample_T2:
  "trackedMessages overlapExample ''T2'' = Some 4 \<and> fcard (refs (objs overlapExample 4)) = 3"
  by (simp add: eval_defs)

theorem refs_count_witness:
  "solidOrder overlapMsgs
   \<and> trackedMessages overlapExample ''T2'' = Some 4
   \<and> fcard (refs (objs overlapExample 4)) = 3
   \<and> 3 = 1 + card {b \<in> dom (trackedMessages overlapExample). (''T2'', b) \<in> (parentRel overlapMsgs)\<^sup>+}"
proof -
  from overlapExample_T2
  have tr: "trackedMessages (ingestAll (reset (New 3 2 1 100)) overlapMsgs) ''T2'' = Some 4"
    by (simp only: overlapExample_ingest)
  from refs_count [OF overlapMsgs_solidOrder tr] overlapExample_T2 overlapMsgs_solidOrder
  show ?thesis by (simp only: overlapExample_ingest [symmetric])
qed

end
